theory Spec2Isabelle
  imports Main
begin

section \<open>The crawler of crawler.js: per-domain breadth-first traversal\<close>

text \<open>
  The model follows \<^verbatim>\<open>handleDomain\<close> (crawler.js, inside \<^verbatim>\<open>crawlerForDomains\<close>),
  \<^verbatim>\<open>normalizeUrl\<close>, and the \<^verbatim>\<open>onFoundImage\<close> callback that index.js passes in
  (\<^verbatim>\<open>JOBS[jobId].results.add(imgUrl)\<close>).

  What the code obtains from outside itself is a parameter of the model, the record
  \<open>env\<close>: the WHATWG \<^verbatim>\<open>URL\<close> constructor, node-fetch, the Playwright browser and the
  cheerio-based \<^verbatim>\<open>extractImagesAndLinks\<close>. Every theorem below holds for every such
  environment. The network and the browser may answer differently each time they are
  asked, so both take the number of the loop iteration (\<open>tick\<close>) besides the URL.
\<close>

subsection \<open>JavaScript strings and sets\<close>

text \<open>
  A string is the list of its characters, and its \<^verbatim>\<open>length\<close> the length of the list
  (JavaScript counts UTF-16 code units; on ASCII text the two agree).
\<close>

text \<open>
  \<^verbatim>\<open>String.prototype.toLowerCase\<close>, on the ASCII letters (host names are ASCII; other
  characters are left as they are).
\<close>

definition toLowerChar :: "char \<Rightarrow> char" where
  "toLowerChar c =
     (case map_of (zip ''ABCDEFGHIJKLMNOPQRSTUVWXYZ'' ''abcdefghijklmnopqrstuvwxyz'') c of
        None \<Rightarrow> c | Some d \<Rightarrow> d)"

definition toLowerCase :: "string \<Rightarrow> string" where
  "toLowerCase s = map toLowerChar s"

text \<open>\<^verbatim>\<open>s.endsWith(suf)\<close>.\<close>

definition endsWith :: "string \<Rightarrow> string \<Rightarrow> bool" where
  "endsWith s suf = (length suf \<le> length s \<and> drop (length s - length suf) s = suf)"

text \<open>\<^verbatim>\<open>s.includes(sub)\<close>: \<open>sub\<close> occurs somewhere in \<open>s\<close>.\<close>

fun str_includes :: "string \<Rightarrow> string \<Rightarrow> bool" where
  "str_includes [] sub = (sub = [])"
| "str_includes (c # cs) sub = (take (length sub) (c # cs) = sub \<or> str_includes cs sub)"

text \<open>\<^verbatim>\<open>s.split('#')[0]\<close>: the part of \<open>s\<close> before its first \<^verbatim>\<open>#\<close>.\<close>

definition before_hash :: "string \<Rightarrow> string" where
  "before_hash s = takeWhile (\<lambda>c. c \<noteq> CHR ''#'') s"

text \<open>
  A JavaScript \<^verbatim>\<open>Set\<close> of strings, as the list of its members in insertion order
  (the order \<^verbatim>\<open>Array.from\<close> gives): \<^verbatim>\<open>add\<close> of a member changes nothing.
\<close>

definition set_add :: "string \<Rightarrow> string list \<Rightarrow> string list" where
  "set_add x xs = (if x \<in> set xs then xs else xs @ [x])"

subsection \<open>Data\<close>

text \<open>A frontier entry \<^verbatim>\<open>{ url, depth }\<close>.\<close>

record entry =
  url :: string
  depth :: int

text \<open>The three properties of a \<^verbatim>\<open>URL\<close> object that the code reads.\<close>

record url_obj =
  protocol :: string
  hostname :: string
  href :: string

text \<open>
  The events handed to \<^verbatim>\<open>onEvent\<close> by \<^verbatim>\<open>handleDomain\<close>, one constructor per call site,
  carrying the values the message is built from:
  \<^item> \<open>Progress host url depth\<close>: type \<^verbatim>\<open>progress\<close>, "(host) fetching url (depth d)";
  \<^item> \<open>WarnHttp host url status\<close>: type \<^verbatim>\<open>warn\<close>, "(host) url -> HTTP status";
  \<^item> \<open>WarnFetchError host url msg\<close>: type \<^verbatim>\<open>warn\<close>, "(host) fetch error url: msg";
  \<^item> \<open>WarnRenderFailed host msg\<close>: type \<^verbatim>\<open>warn\<close>, "(host) browser render failed: msg";
  \<^item> \<open>InfoRendered host url\<close>: type \<^verbatim>\<open>info\<close>, "(host) rendered by browser: url";
  \<^item> \<open>DomainProgress host pagesVisited\<close>: type \<^verbatim>\<open>domain-progress\<close>;
  \<^item> \<open>DomainDone host processedDomains\<close>: type \<^verbatim>\<open>domain-done\<close>.
\<close>

datatype event =
    Progress string string int
  | WarnHttp string string int
  | WarnFetchError string string string
  | WarnRenderFailed string string
  | InfoRendered string string
  | DomainProgress string int
  | DomainDone string int

fun event_type :: "event \<Rightarrow> string" where
  "event_type (Progress h u d) = ''progress''"
| "event_type (WarnHttp h u c) = ''warn''"
| "event_type (WarnFetchError h u m) = ''warn''"
| "event_type (WarnRenderFailed h m) = ''warn''"
| "event_type (InfoRendered h u) = ''info''"
| "event_type (DomainProgress h n) = ''domain-progress''"
| "event_type (DomainDone h n) = ''domain-done''"

text \<open>
  The URLs of the \<^verbatim>\<open>progress\<close> events of a log, in order. \<^verbatim>\<open>handleDomain\<close> emits one
  right before each \<^verbatim>\<open>fetch\<close>, so these are the URLs it set out to fetch.
\<close>

fun progress_url :: "event \<Rightarrow> string list" where
  "progress_url (Progress h u d) = [u]"
| "progress_url (WarnHttp h u c) = []"
| "progress_url (WarnFetchError h u m) = []"
| "progress_url (WarnRenderFailed h m) = []"
| "progress_url (InfoRendered h u) = []"
| "progress_url (DomainProgress h n) = []"
| "progress_url (DomainDone h n) = []"

definition announced :: "event list \<Rightarrow> string list" where
  "announced es = concat (map progress_url es)"

text \<open>
  What \<^verbatim>\<open>await fetch(fetchUrl, ...)\<close> does: it throws (\<open>FetchThrows message\<close>), or it
  gives a response with \<^verbatim>\<open>r.ok\<close>, \<^verbatim>\<open>r.status\<close>, the content-type header
  (\<open>None\<close> when the header is absent) and what \<^verbatim>\<open>await r.text()\<close> does (\<open>Inl message\<close>
  when it throws, \<open>Inr body\<close> otherwise).
\<close>

datatype fetch_result =
    FetchThrows string
  | FetchResponse bool int "string option" "string + string"

text \<open>
  What the six browser calls of one render do. \<open>Some message\<close> is a call that throws;
  \<open>content_res\<close> is \<^verbatim>\<open>page.content()\<close>: \<open>Inl message\<close> when it throws, \<open>Inr html\<close>
  otherwise.
\<close>

record render_run =
  newContext_err :: "string option"
  newPage_err :: "string option"
  goto_err :: "string option"
  content_res :: "string + string"
  pageClose_err :: "string option"
  contextClose_err :: "string option"

text \<open>
  The environment. \<open>new_URL env s None\<close> is \<^verbatim>\<open>new URL(s)\<close> and \<open>new_URL env s (Some b)\<close>
  is \<^verbatim>\<open>new URL(s, b)\<close>; \<open>None\<close> as the result is the TypeError the constructor throws.
  \<open>browser\<close> says whether \<^verbatim>\<open>browser\<close> is non-null. \<open>extractImagesAndLinks env html base\<close>
  is the pair (images, links) of the function of that name.
\<close>

record env =
  new_URL :: "string \<Rightarrow> string option \<Rightarrow> url_obj option"
  fetch :: "nat \<Rightarrow> string \<Rightarrow> fetch_result"
  browser :: bool
  render :: "nat \<Rightarrow> string \<Rightarrow> render_run"
  extractImagesAndLinks :: "string \<Rightarrow> string \<Rightarrow> string list \<times> string list"

text \<open>The two options of \<^verbatim>\<open>crawlerForDomains\<close> that \<^verbatim>\<open>handleDomain\<close> reads.\<close>

record config =
  maxPagesPerDomain :: int
  maxDepth :: int

text \<open>
  The state: the three local variables of \<^verbatim>\<open>handleDomain\<close> (\<open>toVisit\<close>, \<open>seen\<close>,
  \<open>pagesVisited\<close>), the counter \<open>processedDomains\<close> of \<^verbatim>\<open>crawlerForDomains\<close>, and the
  effects: the events passed to \<^verbatim>\<open>onEvent\<close> in order, the job's \<^verbatim>\<open>results\<close> set, and
  the number of browser contexts created so far (\<open>ctxAcquired\<close>: calls of
  \<^verbatim>\<open>browser.newContext()\<close> that returned) and closed so far (\<open>ctxReleased\<close>: calls of
  \<^verbatim>\<open>context.close()\<close> that returned). \<open>tick\<close> counts the iterations of the loop.
\<close>

record state =
  toVisit :: "entry list"
  seen :: "string list"
  pagesVisited :: int
  processedDomains :: int
  events :: "event list"
  results :: "string list"
  ctxAcquired :: nat
  ctxReleased :: nat
  tick :: nat

text \<open>The variable \<^verbatim>\<open>html\<close>: a string or \<^verbatim>\<open>null\<close>.\<close>

type_synonym html = "string option"

subsection \<open>Operations\<close>

definition onEvent :: "event \<Rightarrow> state \<Rightarrow> state" where
  "onEvent e s = s\<lparr>events := events s @ [e]\<rparr>"

text \<open>\<^verbatim>\<open>onFoundImage: imgUrl => JOBS[jobId].results.add(imgUrl)\<close> (index.js).\<close>

definition onFoundImage :: "string \<Rightarrow> state \<Rightarrow> state" where
  "onFoundImage img s = s\<lparr>results := set_add img (results s)\<rparr>"

text \<open>\<^verbatim>\<open>normalizeUrl(u, base)\<close>: the resolved href, or \<open>u\<close> itself when \<^verbatim>\<open>new URL\<close> throws.\<close>

definition normalizeUrl :: "env \<Rightarrow> string \<Rightarrow> string \<Rightarrow> string" where
  "normalizeUrl E u base = (case new_URL E u (Some base) of None \<Rightarrow> u | Some r \<Rightarrow> href r)"

text \<open>\<^verbatim>\<open>!html\<close>: \<^verbatim>\<open>null\<close> and the empty string are falsy.\<close>

definition falsy :: "html \<Rightarrow> bool" where
  "falsy h = (case h of None \<Rightarrow> True | Some b \<Rightarrow> b = [])"

text \<open>\<^verbatim>\<open>!html || html.length < 50\<close>.\<close>

definition too_short :: "html \<Rightarrow> bool" where
  "too_short h = (case h of None \<Rightarrow> True | Some b \<Rightarrow> b = [] \<or> length b < 50)"

text \<open>
  \<^verbatim>\<open>fetchUrl\<close>: the URL itself when \<^verbatim>\<open>new URL(url)\<close> accepts it, with \<^verbatim>\<open>http://\<close>
  in front otherwise.
\<close>

definition fetch_url :: "env \<Rightarrow> string \<Rightarrow> string" where
  "fetch_url E u = (case new_URL E u None of None \<Rightarrow> ''http://'' @ u | Some r \<Rightarrow> u)"

text \<open>\<^verbatim>\<open>r.headers.get('content-type') || ''\<close>.\<close>

definition header_or_empty :: "string option \<Rightarrow> string" where
  "header_or_empty cth = (case cth of None \<Rightarrow> [] | Some c \<Rightarrow> c)"

text \<open>
  The plain fetch, the first \<^verbatim>\<open>try\<close> block of the loop body: the value of \<^verbatim>\<open>html\<close>
  after it, and the state with the warnings it emitted.
\<close>

definition plain_fetch :: "env \<Rightarrow> string \<Rightarrow> string \<Rightarrow> state \<Rightarrow> html \<times> state" where
  "plain_fetch E host u s =
     (case fetch E (tick s) (fetch_url E u) of
        FetchThrows m \<Rightarrow> (None, onEvent (WarnFetchError host u m) s)
      | FetchResponse ok code cth body \<Rightarrow>
          (let ct = header_or_empty cth;
               s1 = (if \<not> ok then onEvent (WarnHttp host u code) s else s)
           in if str_includes ct ''text/html''
              then (case body of
                      Inl m \<Rightarrow> (None, onEvent (WarnFetchError host u m) s1)
                    | Inr b \<Rightarrow> (Some b, s1))
              else (None, s1)))"

text \<open>
  The body of the second \<^verbatim>\<open>try\<close> block. The result is the message of the exception
  that left the block (\<open>None\<close> when it ran to its end), and \<^verbatim>\<open>html\<close> and the state as
  they are at that moment. The rejection of \<^verbatim>\<open>page.goto\<close> is swallowed by its
  \<^verbatim>\<open>.catch(()=>{})\<close>, so \<open>goto_err\<close> changes nothing.
\<close>

definition render_try ::
  "render_run \<Rightarrow> string \<Rightarrow> string \<Rightarrow> html \<Rightarrow> state \<Rightarrow> string option \<times> html \<times> state" where
  "render_try r host u h s =
     (case newContext_err r of
        Some m \<Rightarrow> (Some m, h, s)
      | None \<Rightarrow>
          (let s1 = s\<lparr>ctxAcquired := ctxAcquired s + 1\<rparr> in
           case newPage_err r of
             Some m \<Rightarrow> (Some m, h, s1)
           | None \<Rightarrow>
               (case content_res r of
                  Inl m \<Rightarrow> (Some m, h, s1)
                | Inr b \<Rightarrow>
                    (case pageClose_err r of
                       Some m \<Rightarrow> (Some m, Some b, s1)
                     | None \<Rightarrow>
                         (case contextClose_err r of
                            Some m \<Rightarrow> (Some m, Some b, s1)
                          | None \<Rightarrow>
                              (None, Some b,
                               onEvent (InfoRendered host u)
                                 (s1\<lparr>ctxReleased := ctxReleased s1 + 1\<rparr>)))))))"

text \<open>The second \<^verbatim>\<open>try\<close> with its \<^verbatim>\<open>catch\<close>, which emits a warning and goes on.\<close>

definition render_fallback :: "env \<Rightarrow> string \<Rightarrow> string \<Rightarrow> html \<Rightarrow> state \<Rightarrow> html \<times> state" where
  "render_fallback E host u h s =
     (case render_try (render E (tick s) u) host u h s of
        (None, h', s') \<Rightarrow> (h', s')
      | (Some m, h', s') \<Rightarrow> (h', onEvent (WarnRenderFailed host m) s'))"

text \<open>Plain fetch, then the render when the content is short and a browser is there.\<close>

definition fetch_page :: "env \<Rightarrow> string \<Rightarrow> string \<Rightarrow> state \<Rightarrow> html \<times> state" where
  "fetch_page E host u s =
     (case plain_fetch E host u s of
        (h, s1) \<Rightarrow> if too_short h \<and> browser E then render_fallback E host u h s1 else (h, s1))"

text \<open>One turn of \<^verbatim>\<open>for (const link of links)\<close>, with its \<^verbatim>\<open>try\<close>/\<^verbatim>\<open>catch\<close>.\<close>

definition enqueue_link :: "env \<Rightarrow> string \<Rightarrow> string \<Rightarrow> int \<Rightarrow> state \<Rightarrow> string \<Rightarrow> state" where
  "enqueue_link E host base d s link =
     (case new_URL E link (Some base) of
        None \<Rightarrow> s
      | Some r \<Rightarrow>
          if (protocol r = ''http:'' \<or> protocol r = ''https:'')
             \<and> endsWith (toLowerCase (hostname r)) host
          then (let normalized = before_hash (href r) in
                if normalized \<notin> set (seen s)
                then s\<lparr>toVisit := toVisit s @ [\<lparr>url = normalized, depth = d + 1\<rparr>]\<rparr>
                else s)
          else s)"

text \<open>One turn of \<^verbatim>\<open>for (const img of images)\<close>: \<^verbatim>\<open>onFoundImage(normalizeUrl(img, url))\<close>.\<close>

definition forward_image :: "env \<Rightarrow> string \<Rightarrow> state \<Rightarrow> string \<Rightarrow> state" where
  "forward_image E base s img = onFoundImage (normalizeUrl E img base) s"

text \<open>The loop body from \<^verbatim>\<open>extractImagesAndLinks\<close> to its end, for a truthy \<^verbatim>\<open>html\<close>.\<close>

definition process_content :: "env \<Rightarrow> config \<Rightarrow> string \<Rightarrow> entry \<Rightarrow> string \<Rightarrow> state \<Rightarrow> state" where
  "process_content E cfg host e b s =
     (case extractImagesAndLinks E b (url e) of
        (images, links) \<Rightarrow>
          (let s1 = foldl (forward_image E (url e)) s images;
               s2 = (if depth e < maxDepth cfg
                     then foldl (enqueue_link E host (url e) (depth e)) s1 links
                     else s1);
               s3 = s2\<lparr>pagesVisited := pagesVisited s2 + 1\<rparr>
           in if pagesVisited s3 mod 5 = 0
              then onEvent (DomainProgress host (pagesVisited s3)) s3
              else s3))"

text \<open>\<^verbatim>\<open>seen.add(url)\<close> and the \<^verbatim>\<open>progress\<close> event.\<close>

definition mark_visited :: "string \<Rightarrow> entry \<Rightarrow> state \<Rightarrow> state" where
  "mark_visited host e s =
     onEvent (Progress host (url e) (depth e)) (s\<lparr>seen := set_add (url e) (seen s)\<rparr>)"

text \<open>
  The loop body for an entry that has been taken off the queue and is not in \<open>seen\<close>.
  \<^verbatim>\<open>if (!html) { pagesVisited++; continue; }\<close> is the branch for \<^verbatim>\<open>null\<close> and for the
  empty string.
\<close>

definition visit :: "env \<Rightarrow> config \<Rightarrow> string \<Rightarrow> entry \<Rightarrow> state \<Rightarrow> state" where
  "visit E cfg host e s =
     (case fetch_page E host (url e) (mark_visited host e s) of
        (h, s2) \<Rightarrow>
          (case h of
             None \<Rightarrow> s2\<lparr>pagesVisited := pagesVisited s2 + 1\<rparr>
           | Some b \<Rightarrow>
               if b = [] then s2\<lparr>pagesVisited := pagesVisited s2 + 1\<rparr>
               else process_content E cfg host e b s2))"

text \<open>
  One iteration of the \<^verbatim>\<open>while\<close> loop, run when its condition holds:
  \<^verbatim>\<open>toVisit.shift()\<close>, then \<^verbatim>\<open>continue\<close> for a URL that is in \<open>seen\<close>. The loop
  condition keeps the iteration away from an empty queue; the first case only makes
  the function total.
\<close>

definition iter :: "env \<Rightarrow> config \<Rightarrow> string \<Rightarrow> state \<Rightarrow> state" where
  "iter E cfg host s =
     (case toVisit s of
        [] \<Rightarrow> s
      | e # rest \<Rightarrow>
          (let s1 = s\<lparr>toVisit := rest, tick := tick s + 1\<rparr> in
           if url e \<in> set (seen s) then s1 else visit E cfg host e s1))"

text \<open>The loop condition \<^verbatim>\<open>toVisit.length && pagesVisited < maxPagesPerDomain\<close>.\<close>

definition running :: "config \<Rightarrow> state \<Rightarrow> bool" where
  "running cfg s = (toVisit s \<noteq> [] \<and> pagesVisited s < maxPagesPerDomain cfg)"

text \<open>
  The local variables of \<^verbatim>\<open>handleDomain(domain)\<close> at its start; the rest of the state is
  what it is when the domain is dispatched.
\<close>

definition start_state :: "string \<Rightarrow> state \<Rightarrow> state" where
  "start_state domain s0 =
     s0\<lparr>toVisit := [\<lparr>url = ''http://'' @ domain, depth = 0\<rparr>], seen := [], pagesVisited := 0\<rparr>"

subsection \<open>Notions used in the statements\<close>

text \<open>
  Two notions about one render. \<open>render_captures r\<close>: the context and the page are
  created and \<^verbatim>\<open>page.content()\<close> returns a document that is not empty.
  \<open>fails_before_capture r\<close>: the message of the exception when the render fails before
  \<^verbatim>\<open>page.content()\<close> has returned, that is in \<^verbatim>\<open>newContext\<close>, in \<^verbatim>\<open>newPage\<close> or in
  \<^verbatim>\<open>page.content()\<close> itself.
\<close>

definition render_captures :: "render_run \<Rightarrow> bool" where
  "render_captures r =
     (newContext_err r = None \<and> newPage_err r = None
      \<and> (case content_res r of Inl m \<Rightarrow> False | Inr b \<Rightarrow> b \<noteq> []))"

definition fails_before_capture :: "render_run \<Rightarrow> string option" where
  "fails_before_capture r =
     (case newContext_err r of
        Some m \<Rightarrow> Some m
      | None \<Rightarrow>
          (case newPage_err r of
             Some m \<Rightarrow> Some m
           | None \<Rightarrow> (case content_res r of Inl m \<Rightarrow> Some m | Inr b \<Rightarrow> None)))"

text \<open>
  The shape of a breadth-first queue: depths in ascending order, none more than one
  above the head's.
\<close>

definition bfs_queue :: "entry list \<Rightarrow> bool" where
  "bfs_queue q = (sorted (map depth q) \<and> (\<forall>x\<in>set q. depth x \<le> depth (hd q) + 1))"

text \<open>
  At every loop head \<open>seen\<close> lists the pages visited so far, each once, in the order of
  the visits; the budget counter is their number.
\<close>

definition visits_recorded :: "string list \<Rightarrow> state \<Rightarrow> bool" where
  "visits_recorded before t =
     (distinct (seen t) \<and> pagesVisited t = int (length (seen t))
      \<and> announced (events t) = before @ seen t)"

subsection \<open>Concrete runs\<close>

text \<open>A job in which no domain has been handled yet.\<close>

definition idle :: state where
  "idle = \<lparr>toVisit = [], seen = [], pagesVisited = 0, processedDomains = 0, events = [],
            results = [], ctxAcquired = 0, ctxReleased = 0, tick = 0\<rparr>"

text \<open>The defaults of index.js: 20 pages per domain, depth 2.\<close>

definition cfg_default :: config where
  "cfg_default = \<lparr>maxPagesPerDomain = 20, maxDepth = 2\<rparr>"

text \<open>A browser whose every call succeeds and whose pages are empty documents.\<close>

definition render_blank :: render_run where
  "render_blank = \<lparr>newContext_err = None, newPage_err = None, goto_err = None,
                    content_res = Inr ''<html><head></head><body></body></html>'',
                    pageClose_err = None, contextClose_err = None\<rparr>"

text \<open>
  An environment given by tables. \<open>absolute\<close> lists the strings \<^verbatim>\<open>new URL\<close> accepts
  with or without a base, \<open>relative\<close> those it accepts with a base only; \<open>pages\<close> gives
  the response for a URL (a URL that is not listed does not resolve); \<open>docs\<close> gives,
  for a document, its image and link references; \<open>renders\<close> gives what the browser
  does for a URL.
\<close>

definition table_env ::
  "(string \<times> url_obj) list \<Rightarrow> (string \<times> url_obj) list \<Rightarrow> (string \<times> fetch_result) list
   \<Rightarrow> (string \<times> string list \<times> string list) list \<Rightarrow> bool \<Rightarrow> (string \<times> render_run) list
   \<Rightarrow> env" where
  "table_env absolute relative pages docs b renders =
     \<lparr>new_URL = (\<lambda>s base.
          case map_of absolute s of
            Some r \<Rightarrow> Some r
          | None \<Rightarrow> (case base of None \<Rightarrow> None | Some _ \<Rightarrow> map_of relative s)),
      fetch = (\<lambda>n u.
          case map_of pages u of None \<Rightarrow> FetchThrows ''getaddrinfo ENOTFOUND'' | Some r \<Rightarrow> r),
      browser = b,
      render = (\<lambda>n u. case map_of renders u of None \<Rightarrow> render_blank | Some r \<Rightarrow> r),
      extractImagesAndLinks = (\<lambda>h base.
          case map_of docs h of None \<Rightarrow> ([], []) | Some x \<Rightarrow> x)\<rparr>"

definition http_url :: "string \<Rightarrow> string \<Rightarrow> url_obj" where
  "http_url h path = \<lparr>protocol = ''http:'', hostname = h, href = ''http://'' @ h @ path\<rparr>"

text \<open>
  The site \<^verbatim>\<open>example.com\<close> whose front page links to \<^verbatim>\<open>http://evilexample.com/\<close>, a
  host of another registrant, which does not answer. No browser.
\<close>

definition page_partner :: string where
  "page_partner = ''<html><body><a href=http://evilexample.com/>our partner</a></body></html>''"

definition env_partner :: env where
  "env_partner = table_env
     [(''http://example.com'', http_url ''example.com'' ''/''),
      (''http://evilexample.com/'', http_url ''evilexample.com'' ''/'')]
     []
     [(''http://example.com'',
       FetchResponse True 200 (Some ''text/html; charset=utf-8'') (Inr page_partner))]
     [(page_partner, ([], [''http://evilexample.com/'']))]
     False []"

text \<open>
  A site of three pages. The front page shows a logo and links to \<^verbatim>\<open>/a\<close>, to
  \<^verbatim>\<open>/a#top\<close> and to \<^verbatim>\<open>/b\<close>; page \<^verbatim>\<open>/a\<close> shows the logo and links to \<^verbatim>\<open>/b\<close>; \<^verbatim>\<open>/b\<close>
  answers 404 with plain text. No browser.
\<close>

definition page_home :: string where
  "page_home = ''<img src=/logo.png><a href=/a>A</a><a href=/a#top>top of A</a><a href=/b>B</a>''"

definition page_a :: string where
  "page_a = ''<img src=/logo.png><a href=/b>B</a>''"

definition env_site :: env where
  "env_site = table_env
     [(''http://example.com'', http_url ''example.com'' ''/''),
      (''http://example.com/a'', http_url ''example.com'' ''/a''),
      (''http://example.com/b'', http_url ''example.com'' ''/b'')]
     [(''/a'', http_url ''example.com'' ''/a''),
      (''/a#top'', http_url ''example.com'' ''/a#top''),
      (''/b'', http_url ''example.com'' ''/b''),
      (''/logo.png'', http_url ''example.com'' ''/logo.png'')]
     [(''http://example.com'', FetchResponse True 200 (Some ''text/html'') (Inr page_home)),
      (''http://example.com/a'', FetchResponse True 200 (Some ''text/html'') (Inr page_a)),
      (''http://example.com/b'', FetchResponse False 404 (Some ''text/plain'') (Inr ''Not Found''))]
     [(page_home, ([''/logo.png''], [''/a'', ''/a#top'', ''/b''])),
      (page_a, ([''/logo.png''], [''/b'']))]
     False []"

text \<open>
  A host that serves an image at its root. The browser shows it in a document of its
  own making, with one \<^verbatim>\<open>img\<close> element.
\<close>

definition page_viewer :: string where
  "page_viewer = ''<html><head></head><body><img src=http://img.example.com/></body></html>''"

definition env_image :: env where
  "env_image = table_env
     [(''http://img.example.com'', http_url ''img.example.com'' ''/''),
      (''http://img.example.com/'', http_url ''img.example.com'' ''/'')]
     []
     [(''http://img.example.com'', FetchResponse True 200 (Some ''image/png'') (Inr ''PNG''))]
     [(page_viewer, ([''http://img.example.com/''], []))]
     True
     [(''http://img.example.com'', render_blank\<lparr>content_res := Inr page_viewer\<rparr>)]"

text \<open>
  A site whose front page is 27 characters of HTML with one link, and a browser that
  has gone away: \<^verbatim>\<open>browser.newContext()\<close> throws.
\<close>

definition page_short :: string where
  "page_short = ''<a href=/about>About us</a>''"

definition page_about :: string where
  "page_about = ''<html><body><h1>About us</h1><p>We make things.</p></body></html>''"

definition env_short :: env where
  "env_short = table_env
     [(''http://example.com'', http_url ''example.com'' ''/''),
      (''http://example.com/about'', http_url ''example.com'' ''/about'')]
     [(''/about'', http_url ''example.com'' ''/about'')]
     [(''http://example.com'', FetchResponse True 200 (Some ''text/html'') (Inr page_short)),
      (''http://example.com/about'', FetchResponse True 200 (Some ''text/html'') (Inr page_about))]
     [(page_short, ([], [''/about'']))]
     True
     [(''http://example.com'', render_blank\<lparr>newContext_err := Some ''browser has been closed''\<rparr>)]"

text \<open>
  A site that does not answer in time. The plain fetch throws; in the browser the
  navigation times out, which the code ignores, and \<^verbatim>\<open>page.content()\<close> then throws.
\<close>

definition env_leak :: env where
  "env_leak = table_env
     [(''http://example.com'', http_url ''example.com'' ''/'')]
     []
     [(''http://example.com'', FetchThrows ''network timeout at: http://example.com'')]
     []
     True
     [(''http://example.com'',
       render_blank\<lparr>goto_err := Some ''Timeout 15000ms exceeded'',
                    content_res := Inl ''page is navigating''\<rparr>)]"

text \<open>
  The same site where only the navigation fails: the page stays blank.
\<close>

definition env_slow :: env where
  "env_slow = table_env
     [(''http://example.com'', http_url ''example.com'' ''/'')]
     []
     [(''http://example.com'', FetchThrows ''network timeout at: http://example.com'')]
     []
     True
     [(''http://example.com'', render_blank\<lparr>goto_err := Some ''Timeout 15000ms exceeded''\<rparr>)]"

text \<open>
  A site whose front page links to four documents, each answered by \<open>r\<close>. No browser.
\<close>

definition page_docs :: string where
  "page_docs = ''<a href=/p1>1</a><a href=/p2>2</a><a href=/p3>3</a><a href=/p4>4</a>''"

definition env_docs :: "fetch_result \<Rightarrow> env" where
  "env_docs r = table_env
     [(''http://example.com'', http_url ''example.com'' ''/''),
      (''http://example.com/p1'', http_url ''example.com'' ''/p1''),
      (''http://example.com/p2'', http_url ''example.com'' ''/p2''),
      (''http://example.com/p3'', http_url ''example.com'' ''/p3''),
      (''http://example.com/p4'', http_url ''example.com'' ''/p4'')]
     [(''/p1'', http_url ''example.com'' ''/p1''),
      (''/p2'', http_url ''example.com'' ''/p2''),
      (''/p3'', http_url ''example.com'' ''/p3''),
      (''/p4'', http_url ''example.com'' ''/p4'')]
     [(''http://example.com'', FetchResponse True 200 (Some ''text/html'') (Inr page_docs)),
      (''http://example.com/p1'', r),
      (''http://example.com/p2'', r),
      (''http://example.com/p3'', r),
      (''http://example.com/p4'', r)]
     [(page_docs, ([], [''/p1'', ''/p2'', ''/p3'', ''/p4'']))]
     False []"

definition pdf :: fetch_result where
  "pdf = FetchResponse True 200 (Some ''application/pdf'') (Inr ''%PDF-1.4'')"

definition leaf :: fetch_result where
  "leaf = FetchResponse True 200 (Some ''text/html'') (Inr ''<p>text</p>'')"

text \<open>The state of the traversal of that site once the front page has been visited.\<close>

definition docs_after_home :: state where
  "docs_after_home = iter (env_docs pdf) cfg_default ''example.com'' (start_state ''example.com'' idle)"

text \<open>The state right after \<^verbatim>\<open>toVisit.shift()\<close> has taken the seed entry.\<close>

definition seed_taken :: "string \<Rightarrow> state" where
  "seed_taken domain = (start_state domain idle)\<lparr>toVisit := [], tick := 1\<rparr>"

text \<open>The traversal of the three-page site after two iterations.\<close>

definition site_after_two :: state where
  "site_after_two =
     iter env_site cfg_default ''example.com''
       (iter env_site cfg_default ''example.com'' (start_state ''example.com'' idle))"

section \<open>The loop: termination and invariants\<close>

subsection \<open>Frame lemmas: what each operation leaves alone\<close>

lemma onEvent_fields [simp]:
  "toVisit (onEvent e s) = toVisit s"
  "seen (onEvent e s) = seen s"
  "pagesVisited (onEvent e s) = pagesVisited s"
  "processedDomains (onEvent e s) = processedDomains s"
  "results (onEvent e s) = results s"
  "ctxAcquired (onEvent e s) = ctxAcquired s"
  "ctxReleased (onEvent e s) = ctxReleased s"
  "tick (onEvent e s) = tick s"
  "events (onEvent e s) = events s @ [e]"
  by (simp_all add: onEvent_def)

lemma onFoundImage_fields [simp]:
  "toVisit (onFoundImage i s) = toVisit s"
  "seen (onFoundImage i s) = seen s"
  "pagesVisited (onFoundImage i s) = pagesVisited s"
  "processedDomains (onFoundImage i s) = processedDomains s"
  "events (onFoundImage i s) = events s"
  "ctxAcquired (onFoundImage i s) = ctxAcquired s"
  "ctxReleased (onFoundImage i s) = ctxReleased s"
  "tick (onFoundImage i s) = tick s"
  "results (onFoundImage i s) = set_add i (results s)"
  by (simp_all add: onFoundImage_def)

lemma plain_fetch_fields [simp]:
  "toVisit (snd (plain_fetch E host u s)) = toVisit s"
  "seen (snd (plain_fetch E host u s)) = seen s"
  "pagesVisited (snd (plain_fetch E host u s)) = pagesVisited s"
  "processedDomains (snd (plain_fetch E host u s)) = processedDomains s"
  "results (snd (plain_fetch E host u s)) = results s"
  "ctxAcquired (snd (plain_fetch E host u s)) = ctxAcquired s"
  "ctxReleased (snd (plain_fetch E host u s)) = ctxReleased s"
  "tick (snd (plain_fetch E host u s)) = tick s"
  by (simp_all add: plain_fetch_def Let_def split: fetch_result.split sum.split)

lemma mark_visited_fields [simp]:
  "toVisit (mark_visited host e s) = toVisit s"
  "seen (mark_visited host e s) = set_add (url e) (seen s)"
  "pagesVisited (mark_visited host e s) = pagesVisited s"
  "processedDomains (mark_visited host e s) = processedDomains s"
  "results (mark_visited host e s) = results s"
  "ctxAcquired (mark_visited host e s) = ctxAcquired s"
  "ctxReleased (mark_visited host e s) = ctxReleased s"
  "tick (mark_visited host e s) = tick s"
  "events (mark_visited host e s) = events s @ [Progress host (url e) (depth e)]"
  by (simp_all add: mark_visited_def)

lemma render_try_fields [simp]:
  "toVisit (snd (snd (render_try r host u h s))) = toVisit s"
  "seen (snd (snd (render_try r host u h s))) = seen s"
  "pagesVisited (snd (snd (render_try r host u h s))) = pagesVisited s"
  "processedDomains (snd (snd (render_try r host u h s))) = processedDomains s"
  "results (snd (snd (render_try r host u h s))) = results s"
  "tick (snd (snd (render_try r host u h s))) = tick s"
  by (simp_all add: render_try_def Let_def split: option.split sum.split)

lemma render_fallback_fields [simp]:
  "toVisit (snd (render_fallback E host u h s)) = toVisit s"
  "seen (snd (render_fallback E host u h s)) = seen s"
  "pagesVisited (snd (render_fallback E host u h s)) = pagesVisited s"
  "processedDomains (snd (render_fallback E host u h s)) = processedDomains s"
  "results (snd (render_fallback E host u h s)) = results s"
  "tick (snd (render_fallback E host u h s)) = tick s"
proof -
  obtain m h' s' where r: "render_try (render E (tick s) u) host u h s = (m, h', s')"
    by (cases "render_try (render E (tick s) u) host u h s") auto
  have f: "toVisit s' = toVisit s" "seen s' = seen s" "pagesVisited s' = pagesVisited s"
    "processedDomains s' = processedDomains s" "results s' = results s" "tick s' = tick s"
    using render_try_fields [of "render E (tick s) u" host u h s] by (simp_all add: r)
  show "toVisit (snd (render_fallback E host u h s)) = toVisit s"
    "seen (snd (render_fallback E host u h s)) = seen s"
    "pagesVisited (snd (render_fallback E host u h s)) = pagesVisited s"
    "processedDomains (snd (render_fallback E host u h s)) = processedDomains s"
    "results (snd (render_fallback E host u h s)) = results s"
    "tick (snd (render_fallback E host u h s)) = tick s"
    using f by (simp_all add: render_fallback_def r split: option.split)
qed

lemma fetch_page_fields [simp]:
  "toVisit (snd (fetch_page E host u s)) = toVisit s"
  "seen (snd (fetch_page E host u s)) = seen s"
  "pagesVisited (snd (fetch_page E host u s)) = pagesVisited s"
  "processedDomains (snd (fetch_page E host u s)) = processedDomains s"
  "results (snd (fetch_page E host u s)) = results s"
  "tick (snd (fetch_page E host u s)) = tick s"
  by (simp_all add: fetch_page_def split: prod.split)
     (metis plain_fetch_fields snd_conv)+

lemma forward_image_fields [simp]:
  "toVisit (forward_image E base s i) = toVisit s"
  "seen (forward_image E base s i) = seen s"
  "pagesVisited (forward_image E base s i) = pagesVisited s"
  "processedDomains (forward_image E base s i) = processedDomains s"
  "events (forward_image E base s i) = events s"
  "ctxAcquired (forward_image E base s i) = ctxAcquired s"
  "ctxReleased (forward_image E base s i) = ctxReleased s"
  "tick (forward_image E base s i) = tick s"
  "results (forward_image E base s i) = set_add (normalizeUrl E i base) (results s)"
  by (simp_all add: forward_image_def)

lemma foldl_forward_image_fields [simp]:
  "toVisit (foldl (forward_image E base) s imgs) = toVisit s"
  "seen (foldl (forward_image E base) s imgs) = seen s"
  "pagesVisited (foldl (forward_image E base) s imgs) = pagesVisited s"
  "processedDomains (foldl (forward_image E base) s imgs) = processedDomains s"
  "events (foldl (forward_image E base) s imgs) = events s"
  "ctxAcquired (foldl (forward_image E base) s imgs) = ctxAcquired s"
  "ctxReleased (foldl (forward_image E base) s imgs) = ctxReleased s"
  "tick (foldl (forward_image E base) s imgs) = tick s"
  by (induction imgs arbitrary: s; simp)+

lemma enqueue_link_fields [simp]:
  "seen (enqueue_link E host base d s l) = seen s"
  "pagesVisited (enqueue_link E host base d s l) = pagesVisited s"
  "processedDomains (enqueue_link E host base d s l) = processedDomains s"
  "events (enqueue_link E host base d s l) = events s"
  "results (enqueue_link E host base d s l) = results s"
  "ctxAcquired (enqueue_link E host base d s l) = ctxAcquired s"
  "ctxReleased (enqueue_link E host base d s l) = ctxReleased s"
  "tick (enqueue_link E host base d s l) = tick s"
  by (simp_all add: enqueue_link_def Let_def split: option.split)

lemma foldl_enqueue_link_fields [simp]:
  "seen (foldl (enqueue_link E host base d) s ls) = seen s"
  "pagesVisited (foldl (enqueue_link E host base d) s ls) = pagesVisited s"
  "processedDomains (foldl (enqueue_link E host base d) s ls) = processedDomains s"
  "events (foldl (enqueue_link E host base d) s ls) = events s"
  "results (foldl (enqueue_link E host base d) s ls) = results s"
  "ctxAcquired (foldl (enqueue_link E host base d) s ls) = ctxAcquired s"
  "ctxReleased (foldl (enqueue_link E host base d) s ls) = ctxReleased s"
  "tick (foldl (enqueue_link E host base d) s ls) = tick s"
  by (induction ls arbitrary: s; simp)+

text \<open>
  Enqueueing only appends, and every appended entry has the depth of the page plus one.
\<close>

lemma enqueue_link_toVisit:
  "\<exists>us. toVisit (enqueue_link E host base d s l)
          = toVisit s @ map (\<lambda>u. \<lparr>url = u, depth = d + 1\<rparr>) us"
proof -
  have "toVisit (enqueue_link E host base d s l) = toVisit s
      \<or> (\<exists>v. toVisit (enqueue_link E host base d s l)
              = toVisit s @ [\<lparr>url = v, depth = d + 1\<rparr>])"
    by (auto simp: enqueue_link_def Let_def split: option.splits)
  then show ?thesis
  proof
    assume "toVisit (enqueue_link E host base d s l) = toVisit s"
    then have "toVisit (enqueue_link E host base d s l)
        = toVisit s @ map (\<lambda>u. \<lparr>url = u, depth = d + 1\<rparr>) []"
      by simp
    then show ?thesis by blast
  next
    assume "\<exists>v. toVisit (enqueue_link E host base d s l)
              = toVisit s @ [\<lparr>url = v, depth = d + 1\<rparr>]"
    then obtain v where "toVisit (enqueue_link E host base d s l)
        = toVisit s @ map (\<lambda>u. \<lparr>url = u, depth = d + 1\<rparr>) [v]"
      by auto
    then show ?thesis by blast
  qed
qed

lemma foldl_enqueue_link_toVisit:
  "\<exists>us. toVisit (foldl (enqueue_link E host base d) s ls)
          = toVisit s @ map (\<lambda>u. \<lparr>url = u, depth = d + 1\<rparr>) us"
proof (induction ls arbitrary: s)
  case Nil
  have "toVisit s = toVisit s @ map (\<lambda>u. \<lparr>url = u, depth = d + 1\<rparr>) []" by simp
  then show ?case unfolding foldl_Nil by blast
next
  case (Cons l ls)
  obtain us where a: "toVisit (enqueue_link E host base d s l)
      = toVisit s @ map (\<lambda>u. \<lparr>url = u, depth = d + 1\<rparr>) us"
    using enqueue_link_toVisit by blast
  obtain vs where b: "toVisit (foldl (enqueue_link E host base d) (enqueue_link E host base d s l) ls)
      = toVisit (enqueue_link E host base d s l) @ map (\<lambda>u. \<lparr>url = u, depth = d + 1\<rparr>) vs"
    using Cons.IH by blast
  have "toVisit (foldl (enqueue_link E host base d) s (l # ls))
      = toVisit s @ map (\<lambda>u. \<lparr>url = u, depth = d + 1\<rparr>) (us @ vs)"
    by (simp add: a b)
  then show ?case by blast
qed

lemma process_content_fields [simp]:
  "seen (process_content E cfg host e b s) = seen s"
  "pagesVisited (process_content E cfg host e b s) = pagesVisited s + 1"
  "processedDomains (process_content E cfg host e b s) = processedDomains s"
  "ctxAcquired (process_content E cfg host e b s) = ctxAcquired s"
  "ctxReleased (process_content E cfg host e b s) = ctxReleased s"
  "tick (process_content E cfg host e b s) = tick s"
  by (simp_all add: process_content_def Let_def split: prod.split)

lemma process_content_toVisit:
  "\<exists>us. toVisit (process_content E cfg host e b s)
          = toVisit s @ map (\<lambda>u. \<lparr>url = u, depth = depth e + 1\<rparr>) us
        \<and> (us = [] \<or> depth e < maxDepth cfg)"
proof -
  obtain images links where x: "extractImagesAndLinks E b (url e) = (images, links)"
    by (cases "extractImagesAndLinks E b (url e)") auto
  define s1 where "s1 = foldl (forward_image E (url e)) s images"
  have s1: "toVisit s1 = toVisit s" by (simp add: s1_def)
  show ?thesis
  proof (cases "depth e < maxDepth cfg")
    case True
    obtain us where "toVisit (foldl (enqueue_link E host (url e) (depth e)) s1 links)
        = toVisit s1 @ map (\<lambda>u. \<lparr>url = u, depth = depth e + 1\<rparr>) us"
      using foldl_enqueue_link_toVisit by blast
    then have "toVisit (process_content E cfg host e b s)
        = toVisit s @ map (\<lambda>u. \<lparr>url = u, depth = depth e + 1\<rparr>) us"
      using True s1 by (simp add: process_content_def x Let_def s1_def)
    then show ?thesis using True by blast
  next
    case False
    then have "toVisit (process_content E cfg host e b s)
        = toVisit s @ map (\<lambda>u. \<lparr>url = u, depth = depth e + 1\<rparr>) []"
      using s1 by (simp add: process_content_def x Let_def s1_def)
    then show ?thesis by blast
  qed
qed

text \<open>A visited page costs exactly one unit of the budget and puts its URL into \<open>seen\<close>.\<close>

lemma visit_fields [simp]:
  "seen (visit E cfg host e s) = set_add (url e) (seen s)"
  "pagesVisited (visit E cfg host e s) = pagesVisited s + 1"
  "processedDomains (visit E cfg host e s) = processedDomains s"
  "tick (visit E cfg host e s) = tick s"
proof -
  define s1 where "s1 = mark_visited host e s"
  define h where "h = fst (fetch_page E host (url e) s1)"
  define s2 where "s2 = snd (fetch_page E host (url e) s1)"
  have f: "fetch_page E host (url e) s1 = (h, s2)"
    by (simp add: h_def s2_def)
  have g: "seen s2 = set_add (url e) (seen s)" "pagesVisited s2 = pagesVisited s"
    "processedDomains s2 = processedDomains s" "tick s2 = tick s"
    by (simp_all add: s2_def s1_def)
  have v: "visit E cfg host e s =
      (case h of None \<Rightarrow> s2\<lparr>pagesVisited := pagesVisited s2 + 1\<rparr>
       | Some b \<Rightarrow> if b = [] then s2\<lparr>pagesVisited := pagesVisited s2 + 1\<rparr>
                  else process_content E cfg host e b s2)"
    using f by (simp add: visit_def s1_def)
  show "seen (visit E cfg host e s) = set_add (url e) (seen s)"
    "pagesVisited (visit E cfg host e s) = pagesVisited s + 1"
    "processedDomains (visit E cfg host e s) = processedDomains s"
    "tick (visit E cfg host e s) = tick s"
    using g by (simp_all add: v split: option.split)
qed

lemma visit_toVisit:
  "\<exists>us. toVisit (visit E cfg host e s)
          = toVisit s @ map (\<lambda>u. \<lparr>url = u, depth = depth e + 1\<rparr>) us
        \<and> (us = [] \<or> depth e < maxDepth cfg)"
proof -
  define s1 where "s1 = mark_visited host e s"
  define h where "h = fst (fetch_page E host (url e) s1)"
  define s2 where "s2 = snd (fetch_page E host (url e) s1)"
  have f: "fetch_page E host (url e) s1 = (h, s2)"
    by (simp add: h_def s2_def)
  have g: "toVisit s2 = toVisit s"
    by (simp add: s2_def s1_def)
  have v: "visit E cfg host e s =
      (case h of None \<Rightarrow> s2\<lparr>pagesVisited := pagesVisited s2 + 1\<rparr>
       | Some b \<Rightarrow> if b = [] then s2\<lparr>pagesVisited := pagesVisited s2 + 1\<rparr>
                  else process_content E cfg host e b s2)"
    using f by (simp add: visit_def s1_def)
  show ?thesis
  proof (cases "h = None \<or> h = Some []")
    case True
    then have "toVisit (visit E cfg host e s)
        = toVisit s @ map (\<lambda>u. \<lparr>url = u, depth = depth e + 1\<rparr>) []"
      using g by (auto simp: v)
    then show ?thesis by blast
  next
    case False
    then obtain b where b: "h = Some b" "b \<noteq> []" by (cases h) auto
    then have "visit E cfg host e s = process_content E cfg host e b s2" by (simp add: v)
    then show ?thesis using process_content_toVisit [of E cfg host e b s2] g by simp
  qed
qed

text \<open>
  An iteration either discards an entry whose URL was seen, and only shortens the queue,
  or visits a page: the budget counter goes up by one.
\<close>

lemma iter_seen_entry:
  "toVisit s = e # rest \<Longrightarrow> url e \<in> set (seen s) \<Longrightarrow>
   iter E cfg host s = s\<lparr>toVisit := rest, tick := tick s + 1\<rparr>"
  by (simp add: iter_def)

lemma iter_new_entry:
  "toVisit s = e # rest \<Longrightarrow> url e \<notin> set (seen s) \<Longrightarrow>
   iter E cfg host s = visit E cfg host e (s\<lparr>toVisit := rest, tick := tick s + 1\<rparr>)"
  by (simp add: iter_def)

lemma iter_toVisit:
  assumes "toVisit s = e # rest"
  shows "\<exists>us. toVisit (iter E cfg host s)
          = rest @ map (\<lambda>u. \<lparr>url = u, depth = depth e + 1\<rparr>) us
        \<and> (us = [] \<or> depth e < maxDepth cfg)"
proof (cases "url e \<in> set (seen s)")
  case True
  then have "toVisit (iter E cfg host s) = rest @ map (\<lambda>u. \<lparr>url = u, depth = depth e + 1\<rparr>) []"
    using assms by (simp add: iter_seen_entry)
  then show ?thesis by blast
next
  case False
  then show ?thesis
    using assms visit_toVisit [of E cfg host e "s\<lparr>toVisit := rest, tick := tick s + 1\<rparr>"]
    by (simp add: iter_new_entry)
qed

lemma iter_measure:
  assumes "running cfg s"
  shows "pagesVisited (iter E cfg host s) = pagesVisited s + 1
       \<or> (pagesVisited (iter E cfg host s) = pagesVisited s
          \<and> length (toVisit (iter E cfg host s)) < length (toVisit s))"
proof -
  obtain e rest where q: "toVisit s = e # rest"
    using assms by (cases "toVisit s") (auto simp: running_def)
  show ?thesis
    by (cases "url e \<in> set (seen s)") (simp_all add: iter_seen_entry [OF q] iter_new_entry [OF q] q)
qed

subsection \<open>The loop and \<^verbatim>\<open>handleDomain\<close>\<close>

text \<open>
  \<^verbatim>\<open>while (toVisit.length && pagesVisited < maxPagesPerDomain) { ... }\<close>: the state
  when the loop is left. It is left on every input: an iteration either uses one unit of
  the page budget or shortens the queue.
\<close>

function crawl_loop :: "env \<Rightarrow> config \<Rightarrow> string \<Rightarrow> state \<Rightarrow> state" where
  "crawl_loop E cfg host s =
     (if running cfg s then crawl_loop E cfg host (iter E cfg host s) else s)"
  by pat_completeness auto
termination
proof (relation "measures [\<lambda>(E, cfg, host, s). nat (maxPagesPerDomain cfg - pagesVisited s),
                           \<lambda>(E, cfg, host, s). length (toVisit s)]")
  show "wf (measures [\<lambda>(E, cfg, host, s). nat (maxPagesPerDomain cfg - pagesVisited s),
                      \<lambda>(E, cfg, host, s). length (toVisit s)])"
    by simp
next
  fix E :: env and cfg :: config and host :: string and s :: state
  assume r: "running cfg s"
  then have "pagesVisited s < maxPagesPerDomain cfg" by (simp add: running_def)
  then show "((E, cfg, host, iter E cfg host s), (E, cfg, host, s))
      \<in> measures [\<lambda>(E, cfg, host, s). nat (maxPagesPerDomain cfg - pagesVisited s),
                   \<lambda>(E, cfg, host, s). length (toVisit s)]"
    using iter_measure [OF r, of E host] by auto
qed

declare crawl_loop.simps [simp del]

text \<open>
  The states at the head of the loop, from the first to the one the loop is left in:
  the points of the traversal at which the loop condition is evaluated.
\<close>

function loop_states :: "env \<Rightarrow> config \<Rightarrow> string \<Rightarrow> state \<Rightarrow> state list" where
  "loop_states E cfg host s =
     (if running cfg s then s # loop_states E cfg host (iter E cfg host s) else [s])"
  by pat_completeness auto
termination
proof (relation "measures [\<lambda>(E, cfg, host, s). nat (maxPagesPerDomain cfg - pagesVisited s),
                           \<lambda>(E, cfg, host, s). length (toVisit s)]")
  show "wf (measures [\<lambda>(E, cfg, host, s). nat (maxPagesPerDomain cfg - pagesVisited s),
                      \<lambda>(E, cfg, host, s). length (toVisit s)])"
    by simp
next
  fix E :: env and cfg :: config and host :: string and s :: state
  assume r: "running cfg s"
  then have "pagesVisited s < maxPagesPerDomain cfg" by (simp add: running_def)
  then show "((E, cfg, host, iter E cfg host s), (E, cfg, host, s))
      \<in> measures [\<lambda>(E, cfg, host, s). nat (maxPagesPerDomain cfg - pagesVisited s),
                   \<lambda>(E, cfg, host, s). length (toVisit s)]"
    using iter_measure [OF r, of E host] by auto
qed

declare loop_states.simps [simp del]

text \<open>
  The entries taken off the queue by \<^verbatim>\<open>toVisit.shift()\<close>, in order: the head of the
  queue at every loop head where the condition holds.
\<close>

definition dequeued :: "env \<Rightarrow> config \<Rightarrow> string \<Rightarrow> state \<Rightarrow> entry list" where
  "dequeued E cfg host s = map (\<lambda>t. hd (toVisit t)) (butlast (loop_states E cfg host s))"

text \<open>\<^verbatim>\<open>handleDomain(domain)\<close>: the loop, then the \<^verbatim>\<open>domain-done\<close> event.\<close>

definition handleDomain :: "env \<Rightarrow> config \<Rightarrow> string \<Rightarrow> state \<Rightarrow> state" where
  "handleDomain E cfg domain s0 =
     (let host = toLowerCase domain;
          s = crawl_loop E cfg host (start_state domain s0);
          s' = s\<lparr>processedDomains := processedDomains s + 1\<rparr>
      in onEvent (DomainDone host (processedDomains s')) s')"

subsection \<open>Reasoning about the loop\<close>

lemma loop_states_unfold:
  "loop_states E cfg host s =
     (if running cfg s then s # loop_states E cfg host (iter E cfg host s) else [s])"
  by (rule loop_states.simps)

lemma loop_states_not_Nil [simp]: "loop_states E cfg host s \<noteq> []"
  by (subst loop_states_unfold) simp

lemma start_in_loop_states [simp]: "s \<in> set (loop_states E cfg host s)"
  by (subst loop_states_unfold) simp

text \<open>What holds at the first loop head and is kept by every iteration holds at all.\<close>

lemma loop_states_invariant:
  assumes "P s"
    and "\<And>t. P t \<Longrightarrow> running cfg t \<Longrightarrow> P (iter E cfg host t)"
    and "t \<in> set (loop_states E cfg host s)"
  shows "P t"
  using assms
proof (induction E cfg host s rule: loop_states.induct)
  case (1 E cfg host s)
  note step = "1.prems"(2)
  show ?case
  proof (cases "running cfg s")
    case True
    then have "t = s \<or> t \<in> set (loop_states E cfg host (iter E cfg host s))"
      using "1.prems"(3) by (subst (asm) loop_states_unfold) simp
    then show ?thesis
    proof
      assume "t = s"
      then show ?thesis using "1.prems"(1) by simp
    next
      assume m: "t \<in> set (loop_states E cfg host (iter E cfg host s))"
      have "P (iter E cfg host s)" using step [OF "1.prems"(1) True] .
      then show ?thesis using "1.IH" [OF True _ step m] by simp
    qed
  next
    case False
    then have "t = s"
      using "1.prems"(3) by (subst (asm) loop_states_unfold) simp
    then show ?thesis using "1.prems"(1) by simp
  qed
qed

lemma crawl_loop_last: "crawl_loop E cfg host s = last (loop_states E cfg host s)"
proof (induction E cfg host s rule: crawl_loop.induct)
  case (1 E cfg host s)
  show ?case
  proof (cases "running cfg s")
    case True
    then show ?thesis
      using "1.IH" by (subst crawl_loop.simps, subst loop_states_unfold) simp
  next
    case False
    then show ?thesis
      by (subst crawl_loop.simps, subst loop_states_unfold) simp
  qed
qed

lemma crawl_loop_in_states: "crawl_loop E cfg host s \<in> set (loop_states E cfg host s)"
  by (simp add: crawl_loop_last)

lemma crawl_loop_stopped: "\<not> running cfg (crawl_loop E cfg host s)"
proof (induction E cfg host s rule: crawl_loop.induct)
  case (1 E cfg host s)
  then show ?case by (subst crawl_loop.simps) simp
qed

lemma iter_pagesVisited_le:
  "running cfg s \<Longrightarrow> pagesVisited (iter E cfg host s) \<le> pagesVisited s + 1"
  using iter_measure [of cfg s E host] by auto

lemma budget_at_loop_heads:
  assumes "pagesVisited s \<le> maxPagesPerDomain cfg"
    and "t \<in> set (loop_states E cfg host s)"
  shows "pagesVisited t \<le> maxPagesPerDomain cfg"
proof (rule loop_states_invariant [where P = "\<lambda>t. pagesVisited t \<le> maxPagesPerDomain cfg", OF _ _ assms(2)])
  show "pagesVisited s \<le> maxPagesPerDomain cfg" by (rule assms(1))
next
  fix t
  assume "running cfg t"
  then show "pagesVisited (iter E cfg host t) \<le> maxPagesPerDomain cfg"
    using iter_pagesVisited_le [of cfg t E host] by (simp add: running_def)
qed

lemma handleDomain_locals [simp]:
  "pagesVisited (handleDomain E cfg domain s0)
     = pagesVisited (crawl_loop E cfg (toLowerCase domain) (start_state domain s0))"
  "seen (handleDomain E cfg domain s0)
     = seen (crawl_loop E cfg (toLowerCase domain) (start_state domain s0))"
  "toVisit (handleDomain E cfg domain s0)
     = toVisit (crawl_loop E cfg (toLowerCase domain) (start_state domain s0))"
  "results (handleDomain E cfg domain s0)
     = results (crawl_loop E cfg (toLowerCase domain) (start_state domain s0))"
  by (simp_all add: handleDomain_def Let_def)

lemma iter_in_loop_states:
  "running cfg s \<Longrightarrow> iter E cfg host s \<in> set (loop_states E cfg host s)"
  by (subst loop_states_unfold) simp

text \<open>No entry of the queue is deeper than \<open>maxDepth\<close>, at every loop head.\<close>

lemma depth_bound_at_loop_heads:
  assumes "\<forall>e\<in>set (toVisit s). depth e \<le> maxDepth cfg"
    and "t \<in> set (loop_states E cfg host s)"
  shows "\<forall>e\<in>set (toVisit t). depth e \<le> maxDepth cfg"
proof (rule loop_states_invariant
    [where P = "\<lambda>t. \<forall>e\<in>set (toVisit t). depth e \<le> maxDepth cfg", OF _ _ assms(2)])
  show "\<forall>e\<in>set (toVisit s). depth e \<le> maxDepth cfg" by (rule assms(1))
next
  fix t
  assume inv: "\<forall>e\<in>set (toVisit t). depth e \<le> maxDepth cfg" and run: "running cfg t"
  obtain e rest where q: "toVisit t = e # rest"
    using run by (cases "toVisit t") (auto simp: running_def)
  obtain us where us: "toVisit (iter E cfg host t)
        = rest @ map (\<lambda>u. \<lparr>url = u, depth = depth e + 1\<rparr>) us"
      "us = [] \<or> depth e < maxDepth cfg"
    using iter_toVisit [OF q] by blast
  show "\<forall>x\<in>set (toVisit (iter E cfg host t)). depth x \<le> maxDepth cfg"
    using inv us by (auto simp: q)
qed

text \<open>With \<open>maxDepth = 0\<close> the queue only ever holds the seed entry, or nothing.\<close>

lemma no_links_at_depth_zero:
  assumes "maxDepth cfg = 0"
    and "toVisit s = [\<lparr>url = v, depth = 0\<rparr>]"
    and "t \<in> set (loop_states E cfg host s)"
  shows "toVisit t = [] \<or> toVisit t = [\<lparr>url = v, depth = 0\<rparr>]"
proof (rule loop_states_invariant
    [where P = "\<lambda>t. toVisit t = [] \<or> toVisit t = [\<lparr>url = v, depth = 0\<rparr>]", OF _ _ assms(3)])
  show "toVisit s = [] \<or> toVisit s = [\<lparr>url = v, depth = 0\<rparr>]" using assms(2) by simp
next
  fix t
  assume inv: "toVisit t = [] \<or> toVisit t = [\<lparr>url = v, depth = 0\<rparr>]" and run: "running cfg t"
  then have q: "toVisit t = \<lparr>url = v, depth = 0\<rparr> # []" by (auto simp: running_def)
  obtain us where "toVisit (iter E cfg host t)
        = [] @ map (\<lambda>u. \<lparr>url = u, depth = depth \<lparr>url = v, depth = 0\<rparr> + 1\<rparr>) us"
      "us = [] \<or> depth \<lparr>url = v, depth = 0\<rparr> < maxDepth cfg"
    using iter_toVisit [OF q] by blast
  then have "toVisit (iter E cfg host t) = []" using assms(1) by auto
  then show "toVisit (iter E cfg host t) = [] \<or> toVisit (iter E cfg host t) = [\<lparr>url = v, depth = 0\<rparr>]"
    by simp
qed

lemma sorted_map_const: "sorted (map (\<lambda>u. (c::int)) us)"
  by (induction us) auto

lemma bfs_queue_step:
  assumes "bfs_queue (e # rest)"
  shows "bfs_queue (rest @ map (\<lambda>u. \<lparr>url = u, depth = depth e + 1\<rparr>) us)"
    and "\<forall>x\<in>set (rest @ map (\<lambda>u. \<lparr>url = u, depth = depth e + 1\<rparr>) us). depth e \<le> depth x"
proof -
  have lo: "\<forall>x\<in>set rest. depth e \<le> depth x" and hi: "\<forall>x\<in>set rest. depth x \<le> depth e + 1"
    and so: "sorted (map depth rest)"
    using assms by (auto simp: bfs_queue_def)
  show "\<forall>x\<in>set (rest @ map (\<lambda>u. \<lparr>url = u, depth = depth e + 1\<rparr>) us). depth e \<le> depth x"
    using lo by auto
  have s: "sorted (map depth (rest @ map (\<lambda>u. \<lparr>url = u, depth = depth e + 1\<rparr>) us))"
    using so hi by (auto simp: sorted_append comp_def sorted_map_const)
  have b: "\<forall>x\<in>set (rest @ map (\<lambda>u. \<lparr>url = u, depth = depth e + 1\<rparr>) us).
      depth x \<le> depth (hd (rest @ map (\<lambda>u. \<lparr>url = u, depth = depth e + 1\<rparr>) us)) + 1"
  proof (cases rest)
    case Nil
    then show ?thesis by (cases us) auto
  next
    case (Cons r rs)
    then have "depth e \<le> depth r" using lo by simp
    then show ?thesis using hi Cons by auto
  qed
  show "bfs_queue (rest @ map (\<lambda>u. \<lparr>url = u, depth = depth e + 1\<rparr>) us)"
    using s b by (simp add: bfs_queue_def)
qed

lemma dequeued_unfold:
  "dequeued E cfg host s =
     (if running cfg s then hd (toVisit s) # dequeued E cfg host (iter E cfg host s) else [])"
  unfolding dequeued_def by (subst loop_states_unfold) simp

lemma dequeued_sorted_from:
  assumes "bfs_queue (toVisit s)" and "\<forall>x\<in>set (toVisit s). lo \<le> depth x"
  shows "sorted (map depth (dequeued E cfg host s))
       \<and> (\<forall>x\<in>set (dequeued E cfg host s). lo \<le> depth x)"
  using assms
proof (induction E cfg host s arbitrary: lo rule: loop_states.induct)
  case (1 E cfg host s)
  show ?case
  proof (cases "running cfg s")
    case False
    then show ?thesis by (subst dequeued_unfold, subst (2) dequeued_unfold) simp
  next
    case True
    then obtain e rest where q: "toVisit s = e # rest"
      by (cases "toVisit s") (auto simp: running_def)
    obtain us where us: "toVisit (iter E cfg host s)
        = rest @ map (\<lambda>u. \<lparr>url = u, depth = depth e + 1\<rparr>) us"
      using iter_toVisit [OF q] by blast
    have b: "bfs_queue (toVisit (iter E cfg host s))"
      and l: "\<forall>x\<in>set (toVisit (iter E cfg host s)). depth e \<le> depth x"
      using bfs_queue_step [of e rest us] "1.prems"(1) by (simp_all add: q us)
    have ih: "sorted (map depth (dequeued E cfg host (iter E cfg host s)))
        \<and> (\<forall>x\<in>set (dequeued E cfg host (iter E cfg host s)). depth e \<le> depth x)"
      using "1.IH" [OF True b l] .
    have d: "dequeued E cfg host s = e # dequeued E cfg host (iter E cfg host s)"
      using True q by (subst dequeued_unfold) simp
    have "lo \<le> depth e" using "1.prems"(2) q by simp
    then show ?thesis using ih by (auto simp: d)
  qed
qed

text \<open>Only \<open>mark_visited\<close> announces a fetch; only \<open>forward_image\<close> touches the results.\<close>

lemma announced_append [simp]: "announced (xs @ ys) = announced xs @ announced ys"
  by (simp add: announced_def)

lemma announced_simps [simp]:
  "announced [] = []"
  "announced (e # es) = progress_url e @ announced es"
  by (simp_all add: announced_def)

lemma plain_fetch_announced [simp]:
  "announced (events (snd (plain_fetch E host u s))) = announced (events s)"
  by (simp add: plain_fetch_def Let_def split: fetch_result.split sum.split)

lemma render_try_announced [simp]:
  "announced (events (snd (snd (render_try r host u h s)))) = announced (events s)"
  by (simp add: render_try_def Let_def split: option.split sum.split)

lemma render_fallback_announced [simp]:
  "announced (events (snd (render_fallback E host u h s))) = announced (events s)"
proof -
  define m where "m = fst (render_try (render E (tick s) u) host u h s)"
  define h' where "h' = fst (snd (render_try (render E (tick s) u) host u h s))"
  define s' where "s' = snd (snd (render_try (render E (tick s) u) host u h s))"
  have r: "render_try (render E (tick s) u) host u h s = (m, h', s')"
    by (simp add: m_def h'_def s'_def)
  have "announced (events s') = announced (events s)" by (simp add: s'_def)
  then show ?thesis by (simp add: render_fallback_def r split: option.split)
qed

lemma fetch_page_announced [simp]:
  "announced (events (snd (fetch_page E host u s))) = announced (events s)"
proof -
  define h where "h = fst (plain_fetch E host u s)"
  define s1 where "s1 = snd (plain_fetch E host u s)"
  have p: "plain_fetch E host u s = (h, s1)" by (simp add: h_def s1_def)
  have "announced (events s1) = announced (events s)" by (simp add: s1_def)
  then show ?thesis by (simp add: fetch_page_def p)
qed

lemma process_content_announced [simp]:
  "announced (events (process_content E cfg host e b s)) = announced (events s)"
  by (simp add: process_content_def Let_def split: prod.split)

lemma visit_announced [simp]:
  "announced (events (visit E cfg host e s)) = announced (events s) @ [url e]"
proof -
  define h where "h = fst (fetch_page E host (url e) (mark_visited host e s))"
  define s2 where "s2 = snd (fetch_page E host (url e) (mark_visited host e s))"
  have f: "fetch_page E host (url e) (mark_visited host e s) = (h, s2)"
    by (simp add: h_def s2_def)
  have "announced (events s2) = announced (events s) @ [url e]" by (simp add: s2_def)
  then show ?thesis by (simp add: visit_def f split: option.split)
qed

lemma set_add_distinct: "distinct xs \<Longrightarrow> distinct (set_add x xs)"
  by (simp add: set_add_def)

lemma set_set_add [simp]: "set (set_add x xs) = insert x (set xs)"
  by (auto simp: set_add_def)

lemma foldl_forward_image_distinct:
  "distinct (results s) \<Longrightarrow> distinct (results (foldl (forward_image E base) s imgs))"
  by (induction imgs arbitrary: s) (simp_all add: set_add_distinct)

lemma process_content_results:
  "results (process_content E cfg host e b s)
     = results (foldl (forward_image E (url e)) s (fst (extractImagesAndLinks E b (url e))))"
  by (simp add: process_content_def Let_def split: prod.split)

lemma visit_results_distinct:
  assumes "distinct (results s)"
  shows "distinct (results (visit E cfg host e s))"
proof -
  define h where "h = fst (fetch_page E host (url e) (mark_visited host e s))"
  define s2 where "s2 = snd (fetch_page E host (url e) (mark_visited host e s))"
  have f: "fetch_page E host (url e) (mark_visited host e s) = (h, s2)"
    by (simp add: h_def s2_def)
  have "results s2 = results s" by (simp add: s2_def)
  then have d: "distinct (results s2)" using assms by simp
  show ?thesis
    using d foldl_forward_image_distinct [OF d]
    by (simp add: visit_def f process_content_results split: option.split)
qed

lemma iter_results_distinct:
  "distinct (results s) \<Longrightarrow> distinct (results (iter E cfg host s))"
  by (simp add: iter_def Let_def visit_results_distinct split: list.split)

lemma visits_recorded_at_loop_heads:
  assumes "visits_recorded before s" and "t \<in> set (loop_states E cfg host s)"
  shows "visits_recorded before t"
proof (rule loop_states_invariant [where P = "visits_recorded before", OF assms(1) _ assms(2)])
  fix t
  assume inv: "visits_recorded before t" and run: "running cfg t"
  obtain e rest where q: "toVisit t = e # rest"
    using run by (cases "toVisit t") (auto simp: running_def)
  show "visits_recorded before (iter E cfg host t)"
  proof (cases "url e \<in> set (seen t)")
    case True
    then show ?thesis using inv by (simp add: iter_seen_entry [OF q] visits_recorded_def)
  next
    case False
    then show ?thesis
      using inv by (simp add: iter_new_entry [OF q] visits_recorded_def set_add_def)
  qed
qed

text \<open>Pages without content: nothing is extracted.\<close>

lemma render_fallback_no_capture:
  assumes "\<not> render_captures (render E (tick s) u)"
  shows "fst (render_fallback E host u None s) = None
       \<or> fst (render_fallback E host u None s) = Some []"
  using assms
  by (auto simp: render_fallback_def render_try_def render_captures_def Let_def
      split: option.splits sum.splits)

lemma plain_fetch_not_html:
  assumes "fetch E (tick s) (fetch_url E u) = FetchResponse ok code cth body"
    and "\<not> str_includes (header_or_empty cth) ''text/html''"
  shows "fst (plain_fetch E host u s) = None"
  using assms by (simp add: plain_fetch_def Let_def)

lemma visit_empty_content:
  assumes "fst (fetch_page E host (url e) (mark_visited host e s)) = None
         \<or> fst (fetch_page E host (url e) (mark_visited host e s)) = Some []"
  shows "results (visit E cfg host e s) = results s"
    and "toVisit (visit E cfg host e s) = toVisit s"
proof -
  define h where "h = fst (fetch_page E host (url e) (mark_visited host e s))"
  define s2 where "s2 = snd (fetch_page E host (url e) (mark_visited host e s))"
  have f: "fetch_page E host (url e) (mark_visited host e s) = (h, s2)"
    by (simp add: h_def s2_def)
  have g: "results s2 = results s" "toVisit s2 = toVisit s" by (simp_all add: s2_def)
  have "h = None \<or> h = Some []" using assms by (simp add: h_def)
  then show "results (visit E cfg host e s) = results s"
    and "toVisit (visit E cfg host e s) = toVisit s"
    using g by (auto simp: visit_def f)
qed

lemma fetch_page_not_html:
  assumes "fetch E (tick s) (fetch_url E u) = FetchResponse ok code cth body"
    and "\<not> str_includes (header_or_empty cth) ''text/html''"
    and "\<not> (browser E \<and> render_captures (render E (tick s) u))"
  shows "fst (fetch_page E host u s) = None \<or> fst (fetch_page E host u s) = Some []"
proof -
  define s1 where "s1 = snd (plain_fetch E host u s)"
  have p: "plain_fetch E host u s = (None, s1)"
    using plain_fetch_not_html [OF assms(1,2), of host] by (simp add: s1_def prod_eq_iff)
  have t: "tick s1 = tick s" by (simp add: s1_def)
  show ?thesis
  proof (cases "browser E")
    case False
    then show ?thesis by (simp add: fetch_page_def p)
  next
    case True
    then have "\<not> render_captures (render E (tick s1) u)" using assms(3) t by simp
    then show ?thesis
      using render_fallback_no_capture [of E s1 u host] True
      by (simp add: fetch_page_def p too_short_def)
  qed
qed

text \<open>A render that fails before the capture leaves \<^verbatim>\<open>html\<close> alone and warns.\<close>

lemma render_fallback_early_failure:
  assumes "fails_before_capture (render E (tick s) u) = Some m"
  shows "fst (render_fallback E host u h s) = h"
    and "events (snd (render_fallback E host u h s)) = events s @ [WarnRenderFailed host m]"
  using assms
  by (auto simp: render_fallback_def render_try_def fails_before_capture_def Let_def
      split: option.splits sum.splits)

section \<open>The claims\<close>

text \<open>
  C1. A link is to be enqueued only if its resolved URL is http or https and its host
  name is the traversal's host or a subdomain of it (the host, or a name that ends with
  a dot and the host). The code tests \<^verbatim>\<open>u.hostname.toLowerCase().endsWith(host)\<close>, with
  no dot in front, under the comment "keep scheme http/https and same host". On the
  site \<^verbatim>\<open>example.com\<close> whose front page links to \<^verbatim>\<open>http://evilexample.com/\<close>, the
  link's host is neither \<^verbatim>\<open>example.com\<close> nor a subdomain of it, and yet the entry is
  put on the frontier and the URL is visited.
\<close>

theorem C1_foreign_host_is_enqueued:
  "new_URL env_partner ''http://evilexample.com/'' (Some ''http://example.com'')
     = Some \<lparr>protocol = ''http:'', hostname = ''evilexample.com'',
             href = ''http://evilexample.com/''\<rparr>
   \<and> ''evilexample.com'' \<noteq> ''example.com''
   \<and> \<not> endsWith ''evilexample.com'' (''.'' @ ''example.com'')
   \<and> toVisit (iter env_partner cfg_default (toLowerCase ''example.com'')
        (start_state ''example.com'' idle))
       = [\<lparr>url = ''http://evilexample.com/'', depth = 1\<rparr>]
   \<and> seen (handleDomain env_partner cfg_default ''example.com'' idle)
       = [''http://example.com'', ''http://evilexample.com/'']"
  by code_simp

text \<open>
  C2 (amended). Every entry taken off the frontier whose URL is not in \<open>seen\<close> raises
  \<open>pagesVisited\<close> by exactly one, whatever the fetch yields. A page whose response is
  not HTML contributes no image and no link, and still costs its unit, unless a browser
  is there and captures a document for it that is not empty: the render fallback runs
  for every page without plain content, a response that is not HTML included.
\<close>

theorem C2_visit_costs_one_unit:
  assumes "toVisit s = e # rest" and "url e \<notin> set (seen s)"
  shows "pagesVisited (iter E cfg host s) = pagesVisited s + 1
       \<and> (\<forall>ok code cth body.
            fetch E (tick s + 1) (fetch_url E (url e)) = FetchResponse ok code cth body
            \<and> \<not> str_includes (header_or_empty cth) ''text/html''
            \<and> \<not> (browser E \<and> render_captures (render E (tick s + 1) (url e)))
            \<longrightarrow> results (iter E cfg host s) = results s \<and> toVisit (iter E cfg host s) = rest)"
proof -
  define s' where "s' = s\<lparr>toVisit := rest, tick := tick s + 1\<rparr>"
  have i: "iter E cfg host s = visit E cfg host e s'"
    using assms by (simp add: iter_new_entry s'_def)
  have a: "pagesVisited (iter E cfg host s) = pagesVisited s + 1"
    by (simp add: i s'_def)
  have b: "results (iter E cfg host s) = results s \<and> toVisit (iter E cfg host s) = rest"
    if f: "fetch E (tick s + 1) (fetch_url E (url e)) = FetchResponse ok code cth body"
      and n: "\<not> str_includes (header_or_empty cth) ''text/html''"
      and r: "\<not> (browser E \<and> render_captures (render E (tick s + 1) (url e)))"
    for ok code cth body
  proof -
    have t: "tick (mark_visited host e s') = tick s + 1" by (simp add: s'_def)
    have "fst (fetch_page E host (url e) (mark_visited host e s')) = None
        \<or> fst (fetch_page E host (url e) (mark_visited host e s')) = Some []"
      using fetch_page_not_html [of E "mark_visited host e s'" "url e" ok code cth body host]
        f n r t by simp
    then show ?thesis
      using visit_empty_content [of E host e s' cfg] by (simp add: i s'_def)
  qed
  show ?thesis using a b by blast
qed

text \<open>
  The theorem at work: the second iteration on the site with four PDF documents takes
  \<^verbatim>\<open>/p1\<close>, whose response is \<^verbatim>\<open>application/pdf\<close>.
\<close>

theorem C2_witness:
  "toVisit docs_after_home
     = \<lparr>url = ''http://example.com/p1'', depth = 1\<rparr>
       # [\<lparr>url = ''http://example.com/p2'', depth = 1\<rparr>,
          \<lparr>url = ''http://example.com/p3'', depth = 1\<rparr>,
          \<lparr>url = ''http://example.com/p4'', depth = 1\<rparr>]
   \<and> ''http://example.com/p1'' \<notin> set (seen docs_after_home)
   \<and> fetch (env_docs pdf) (tick docs_after_home + 1)
        (fetch_url (env_docs pdf) ''http://example.com/p1'')
       = FetchResponse True 200 (Some ''application/pdf'') (Inr ''%PDF-1.4'')
   \<and> \<not> str_includes (header_or_empty (Some ''application/pdf'')) ''text/html''
   \<and> \<not> browser (env_docs pdf)
   \<and> pagesVisited (iter (env_docs pdf) cfg_default ''example.com'' docs_after_home)
       = pagesVisited docs_after_home + 1
   \<and> results (iter (env_docs pdf) cfg_default ''example.com'' docs_after_home)
       = results docs_after_home
   \<and> toVisit (iter (env_docs pdf) cfg_default ''example.com'' docs_after_home)
       = [\<lparr>url = ''http://example.com/p2'', depth = 1\<rparr>,
          \<lparr>url = ''http://example.com/p3'', depth = 1\<rparr>,
          \<lparr>url = ''http://example.com/p4'', depth = 1\<rparr>]"
proof -
  define e :: entry where "e = \<lparr>url = ''http://example.com/p1'', depth = 1\<rparr>"
  define rest :: "entry list" where
    "rest = [\<lparr>url = ''http://example.com/p2'', depth = 1\<rparr>,
             \<lparr>url = ''http://example.com/p3'', depth = 1\<rparr>,
             \<lparr>url = ''http://example.com/p4'', depth = 1\<rparr>]"
  have u: "url e = ''http://example.com/p1''" by (simp add: e_def)
  have q: "toVisit docs_after_home = e # rest" unfolding e_def rest_def by code_simp
  have n: "url e \<notin> set (seen docs_after_home)" unfolding e_def by code_simp
  have f: "fetch (env_docs pdf) (tick docs_after_home + 1) (fetch_url (env_docs pdf) (url e))
      = FetchResponse True 200 (Some ''application/pdf'') (Inr ''%PDF-1.4'')"
    unfolding e_def by code_simp
  have c: "\<not> str_includes (header_or_empty (Some ''application/pdf'')) ''text/html''"
    by code_simp
  have b: "\<not> browser (env_docs pdf)" by code_simp
  have k: "pagesVisited (iter (env_docs pdf) cfg_default ''example.com'' docs_after_home)
        = pagesVisited docs_after_home + 1
      \<and> results (iter (env_docs pdf) cfg_default ''example.com'' docs_after_home)
        = results docs_after_home
      \<and> toVisit (iter (env_docs pdf) cfg_default ''example.com'' docs_after_home) = rest"
    using C2_visit_costs_one_unit [OF q n, of "env_docs pdf" cfg_default "''example.com''"]
      f c b by blast
  show ?thesis using q n f c b k unfolding u by (simp add: e_def rest_def)
qed

text \<open>
  The claim as it stands fails where a browser is there. The host \<^verbatim>\<open>img.example.com\<close>
  answers with \<^verbatim>\<open>image/png\<close>; the plain fetch gives no content, the browser renders the
  image inside a document of its own, and the image reference of that document goes
  into the results.
\<close>

theorem C2_counterexample:
  "fetch env_image 1 (fetch_url env_image ''http://img.example.com'')
     = FetchResponse True 200 (Some ''image/png'') (Inr ''PNG'')
   \<and> \<not> str_includes (header_or_empty (Some ''image/png'')) ''text/html''
   \<and> toVisit (start_state ''img.example.com'' idle)
       = [\<lparr>url = ''http://img.example.com'', depth = 0\<rparr>]
   \<and> seen (start_state ''img.example.com'' idle) = []
   \<and> tick (start_state ''img.example.com'' idle) + 1 = 1
   \<and> results (start_state ''img.example.com'' idle) = []
   \<and> results (iter env_image cfg_default ''img.example.com''
        (start_state ''img.example.com'' idle))
       = [''http://img.example.com/'']"
  by code_simp

text \<open>
  C3. For every domain, when its traversal has ended, \<open>pagesVisited\<close> is at most
  \<open>maxPagesPerDomain\<close>. The page budget is a count of pages (a positive integer in
  the configuration); the bound is proved for every budget that is not negative, for
  the state in which the loop is left and for the state \<^verbatim>\<open>handleDomain\<close> ends in.
\<close>

theorem C3_pagesVisited_within_budget:
  assumes "0 \<le> maxPagesPerDomain cfg"
  shows "pagesVisited (crawl_loop E cfg (toLowerCase domain) (start_state domain s0))
           \<le> maxPagesPerDomain cfg
       \<and> pagesVisited (handleDomain E cfg domain s0) \<le> maxPagesPerDomain cfg"
proof -
  have "pagesVisited (start_state domain s0) \<le> maxPagesPerDomain cfg"
    using assms by (simp add: start_state_def)
  then have "pagesVisited (crawl_loop E cfg (toLowerCase domain) (start_state domain s0))
      \<le> maxPagesPerDomain cfg"
    using budget_at_loop_heads crawl_loop_in_states by blast
  then show ?thesis by simp
qed

text \<open>
  The theorem at work: the three-page site with the default budget, where all three
  pages are visited, and with a budget of 2, where the loop stops at 2 with an entry
  still queued.
\<close>

theorem C3_witness:
  "(0::int) \<le> maxPagesPerDomain cfg_default
   \<and> pagesVisited (handleDomain env_site cfg_default ''example.com'' idle) \<le> 20
   \<and> pagesVisited (handleDomain env_site cfg_default ''example.com'' idle) = 3
   \<and> 0 \<le> maxPagesPerDomain (cfg_default\<lparr>maxPagesPerDomain := 2\<rparr>)
   \<and> pagesVisited (handleDomain env_site (cfg_default\<lparr>maxPagesPerDomain := 2\<rparr>)
        ''example.com'' idle) \<le> 2
   \<and> pagesVisited (handleDomain env_site (cfg_default\<lparr>maxPagesPerDomain := 2\<rparr>)
        ''example.com'' idle) = 2
   \<and> toVisit (handleDomain env_site (cfg_default\<lparr>maxPagesPerDomain := 2\<rparr>)
        ''example.com'' idle) \<noteq> []"
proof -
  have a: "(0::int) \<le> maxPagesPerDomain cfg_default" by (simp add: cfg_default_def)
  have b: "0 \<le> maxPagesPerDomain (cfg_default\<lparr>maxPagesPerDomain := 2\<rparr>)" by simp
  have v: "pagesVisited (handleDomain env_site cfg_default ''example.com'' idle) = 3"
    by code_simp
  have w: "pagesVisited (handleDomain env_site (cfg_default\<lparr>maxPagesPerDomain := 2\<rparr>)
        ''example.com'' idle) = 2
      \<and> toVisit (handleDomain env_site (cfg_default\<lparr>maxPagesPerDomain := 2\<rparr>)
        ''example.com'' idle) \<noteq> []"
    by code_simp
  show ?thesis
    using C3_pagesVisited_within_budget [OF a, of env_site "''example.com''" idle]
      C3_pagesVisited_within_budget [OF b, of env_site "''example.com''" idle] a v w
    by (simp add: cfg_default_def)
qed

text \<open>
  C4. Every entry placed on a domain's frontier (the seed at depth 0 and every link
  entry) has a depth of at most \<open>maxDepth\<close>; so with \<open>maxDepth = 0\<close> no link is ever
  enqueued, whatever the pages hold. An entry that is pushed stays in the queue at
  least until the next loop head, so the queue at the loop heads shows every entry ever
  placed. \<open>maxDepth\<close> is a non-negative integer in the configuration: the seed has
  depth 0. With \<open>maxDepth = 0\<close> the queue holds the seed alone, then nothing.
\<close>

theorem C4_frontier_depth_bounded:
  assumes "t \<in> set (loop_states E cfg (toLowerCase domain) (start_state domain s0))"
  shows "(0 \<le> maxDepth cfg \<longrightarrow> (\<forall>e\<in>set (toVisit t). depth e \<le> maxDepth cfg))
       \<and> (maxDepth cfg = 0 \<longrightarrow>
            toVisit t = [] \<or> toVisit t = [\<lparr>url = ''http://'' @ domain, depth = 0\<rparr>])"
proof (intro conjI impI)
  assume "0 \<le> maxDepth cfg"
  then have "\<forall>e\<in>set (toVisit (start_state domain s0)). depth e \<le> maxDepth cfg"
    by (simp add: start_state_def)
  then show "\<forall>e\<in>set (toVisit t). depth e \<le> maxDepth cfg"
    using depth_bound_at_loop_heads assms by blast
next
  assume z: "maxDepth cfg = 0"
  have "toVisit (start_state domain s0) = [\<lparr>url = ''http://'' @ domain, depth = 0\<rparr>]"
    by (simp add: start_state_def)
  then show "toVisit t = [] \<or> toVisit t = [\<lparr>url = ''http://'' @ domain, depth = 0\<rparr>]"
    using no_links_at_depth_zero [OF z _ assms] by blast
qed

theorem C4_witness:
  "iter env_site cfg_default ''example.com'' (start_state ''example.com'' idle)
     \<in> set (loop_states env_site cfg_default (toLowerCase ''example.com'')
              (start_state ''example.com'' idle))
   \<and> 0 \<le> maxDepth cfg_default
   \<and> list_all (\<lambda>e. depth e \<le> maxDepth cfg_default)
        (toVisit (iter env_site cfg_default ''example.com'' (start_state ''example.com'' idle)))
   \<and> map depth (toVisit (iter env_site cfg_default ''example.com''
        (start_state ''example.com'' idle))) = [1, 1, 1]
   \<and> maxDepth (cfg_default\<lparr>maxDepth := 0\<rparr>) = 0
   \<and> toVisit (iter env_site (cfg_default\<lparr>maxDepth := 0\<rparr>) ''example.com''
        (start_state ''example.com'' idle)) = []"
proof -
  have l: "toLowerCase ''example.com'' = ''example.com''"
    by (simp add: toLowerCase_def toLowerChar_def)
  have r: "running c (start_state ''example.com'' idle)" if "0 < maxPagesPerDomain c" for c
    using that by (simp add: running_def start_state_def idle_def)
  have m: "iter env_site cfg_default ''example.com'' (start_state ''example.com'' idle)
      \<in> set (loop_states env_site cfg_default (toLowerCase ''example.com'')
               (start_state ''example.com'' idle))"
    unfolding l by (rule iter_in_loop_states, rule r) (simp add: cfg_default_def)
  have m0: "iter env_site (cfg_default\<lparr>maxDepth := 0\<rparr>) ''example.com''
        (start_state ''example.com'' idle)
      \<in> set (loop_states env_site (cfg_default\<lparr>maxDepth := 0\<rparr>) (toLowerCase ''example.com'')
               (start_state ''example.com'' idle))"
    unfolding l by (rule iter_in_loop_states, rule r) (simp add: cfg_default_def)
  have q: "map depth (toVisit (iter env_site cfg_default ''example.com''
        (start_state ''example.com'' idle))) = [1, 1, 1]"
    by code_simp
  have z: "maxDepth (cfg_default\<lparr>maxDepth := 0\<rparr>) = 0" by simp
  have q0: "toVisit (iter env_site (cfg_default\<lparr>maxDepth := 0\<rparr>) ''example.com''
        (start_state ''example.com'' idle)) = []"
    by code_simp
  have d: "0 \<le> maxDepth cfg_default" by (simp add: cfg_default_def)
  have "list_all (\<lambda>e. depth e \<le> maxDepth cfg_default)
      (toVisit (iter env_site cfg_default ''example.com'' (start_state ''example.com'' idle)))"
    using C4_frontier_depth_bounded [OF m] d by (simp add: list_all_iff)
  moreover have "toVisit (iter env_site (cfg_default\<lparr>maxDepth := 0\<rparr>) ''example.com''
        (start_state ''example.com'' idle)) = []
      \<or> toVisit (iter env_site (cfg_default\<lparr>maxDepth := 0\<rparr>) ''example.com''
        (start_state ''example.com'' idle)) = [\<lparr>url = ''http://'' @ ''example.com'', depth = 0\<rparr>]"
    using C4_frontier_depth_bounded [OF m0] z by blast
  ultimately show ?thesis
    using m q q0 d z by simp
qed

text \<open>
  C5. Within one domain's traversal the depths of the entries taken off the queue never
  decrease: of two entries, the one taken earlier is not the deeper one, so every entry
  of depth \<open>d\<close> is taken before any entry of depth \<open>d + 1\<close>.
\<close>

theorem C5_dequeue_depths_ascending:
  "sorted (map depth (dequeued E cfg (toLowerCase domain) (start_state domain s0)))
   \<and> (\<forall>i j. i < j \<and> j < length (dequeued E cfg (toLowerCase domain) (start_state domain s0))
        \<longrightarrow> depth (dequeued E cfg (toLowerCase domain) (start_state domain s0) ! i)
            \<le> depth (dequeued E cfg (toLowerCase domain) (start_state domain s0) ! j))"
proof -
  define D where "D = dequeued E cfg (toLowerCase domain) (start_state domain s0)"
  have "bfs_queue (toVisit (start_state domain s0))"
    by (simp add: bfs_queue_def start_state_def)
  moreover have "\<forall>x\<in>set (toVisit (start_state domain s0)). 0 \<le> depth x"
    by (simp add: start_state_def)
  ultimately have s: "sorted (map depth D)"
    unfolding D_def using dequeued_sorted_from by blast
  have "depth (D ! i) \<le> depth (D ! j)" if "i < j" "j < length D" for i j
    using sorted_nth_mono [OF s, of i j] that by simp
  then show ?thesis using s unfolding D_def by blast
qed

text \<open>
  The theorem at work: the three-page site. Five entries are taken, a duplicate and a
  late rediscovery among them, at depths 0, 1, 1, 1, 2.
\<close>

theorem C5_witness:
  "map depth (dequeued env_site cfg_default (toLowerCase ''example.com'')
        (start_state ''example.com'' idle)) = [0, 1, 1, 1, 2]
   \<and> sorted (map depth (dequeued env_site cfg_default (toLowerCase ''example.com'')
        (start_state ''example.com'' idle)))
   \<and> (0::nat) < 4
   \<and> 4 < length (dequeued env_site cfg_default (toLowerCase ''example.com'')
        (start_state ''example.com'' idle))
   \<and> depth (dequeued env_site cfg_default (toLowerCase ''example.com'')
        (start_state ''example.com'' idle) ! 0)
       \<le> depth (dequeued env_site cfg_default (toLowerCase ''example.com'')
        (start_state ''example.com'' idle) ! 4)"
proof -
  have v: "map depth (dequeued env_site cfg_default (toLowerCase ''example.com'')
      (start_state ''example.com'' idle)) = [0, 1, 1, 1, 2]"
    by code_simp
  have l: "4 < length (dequeued env_site cfg_default (toLowerCase ''example.com'')
      (start_state ''example.com'' idle))"
    using arg_cong [OF v, of length] by simp
  show ?thesis
    using C5_dequeue_depths_ascending [of env_site cfg_default "''example.com''" idle] v l
    by (metis zero_less_numeral)
qed

text \<open>
  C6. A \<^verbatim>\<open>domain-progress\<close> event is to be emitted whenever a page brings
  \<open>pagesVisited\<close> to a multiple of 5, pages without content included. In the code the
  branch for a page without content is \<^verbatim>\<open>pagesVisited++; continue;\<close>, which skips the
  emission at the end of the loop body. On the site whose front page links to four PDF
  documents the fifth page has no content: the counter reaches 5 and no
  \<^verbatim>\<open>domain-progress\<close> event is emitted. Where the four documents are HTML pages, the
  event is emitted at 5.
\<close>

theorem C6_no_progress_event_at_five:
  "pagesVisited (handleDomain (env_docs pdf) cfg_default ''example.com'' idle) = 5
   \<and> filter (\<lambda>e. event_type e = ''domain-progress'')
        (events (handleDomain (env_docs pdf) cfg_default ''example.com'' idle)) = []
   \<and> pagesVisited (handleDomain (env_docs leaf) cfg_default ''example.com'' idle) = 5
   \<and> filter (\<lambda>e. event_type e = ''domain-progress'')
        (events (handleDomain (env_docs leaf) cfg_default ''example.com'' idle))
       = [DomainProgress ''example.com'' 5]"
  by code_simp

text \<open>
  C7. Every browser context acquired by the render fallback is to be released before
  the page is done with, on every path, a failed navigation and a failed capture
  included. The code calls \<^verbatim>\<open>context.close()\<close> as the last statement but one of the
  \<^verbatim>\<open>try\<close> block and has no \<^verbatim>\<open>finally\<close>: an exception of \<^verbatim>\<open>newPage\<close>,
  \<^verbatim>\<open>page.content()\<close> or \<^verbatim>\<open>page.close()\<close> jumps over it. On the site that does not
  answer, where \<^verbatim>\<open>page.content()\<close> throws, one context is acquired and none released,
  after the iteration and at the end of \<^verbatim>\<open>handleDomain\<close>. Where only the navigation
  fails, the context is released.
\<close>

theorem C7_context_not_released:
  "ctxAcquired (iter env_leak cfg_default ''example.com'' (start_state ''example.com'' idle)) = 1
   \<and> ctxReleased (iter env_leak cfg_default ''example.com'' (start_state ''example.com'' idle)) = 0
   \<and> ctxAcquired (handleDomain env_leak cfg_default ''example.com'' idle) = 1
   \<and> ctxReleased (handleDomain env_leak cfg_default ''example.com'' idle) = 0
   \<and> ctxAcquired (handleDomain env_slow cfg_default ''example.com'' idle) = 1
   \<and> ctxReleased (handleDomain env_slow cfg_default ''example.com'' idle) = 1"
  by code_simp

text \<open>
  C8 (amended). When the render fallback is attempted (the plain content is empty or
  shorter than 50 characters, and a browser is there) and the render fails before the
  document is captured, a \<^verbatim>\<open>warn\<close> event is recorded, the page is processed to its end
  (\<open>visit\<close> yields the next state: the \<^verbatim>\<open>catch\<close> swallows the exception), and the
  content of the page is what the plain fetch gave. If that was empty, no image and no
  link is extracted and the page costs its unit; if it was a short document, the
  extraction runs on that document.
\<close>

theorem C8_render_failure_keeps_plain_content:
  assumes "plain_fetch E host (url e) (mark_visited host e s) = (h, s1)"
    and "too_short h" and "browser E"
    and "fails_before_capture (render E (tick s) (url e)) = Some m"
  shows "fst (fetch_page E host (url e) (mark_visited host e s)) = h
       \<and> events (snd (fetch_page E host (url e) (mark_visited host e s)))
           = events s1 @ [WarnRenderFailed host m]
       \<and> event_type (WarnRenderFailed host m) = ''warn''
       \<and> (falsy h \<longrightarrow>
            results (visit E cfg host e s) = results s
            \<and> toVisit (visit E cfg host e s) = toVisit s
            \<and> pagesVisited (visit E cfg host e s) = pagesVisited s + 1)
       \<and> (\<forall>b. h = Some b \<and> b \<noteq> [] \<longrightarrow>
            visit E cfg host e s
              = process_content E cfg host e b
                  (snd (fetch_page E host (url e) (mark_visited host e s))))"
proof -
  have t: "tick s1 = tick s"
    using plain_fetch_fields(8) [of E host "url e" "mark_visited host e s"]
    by (simp only: assms(1) snd_conv mark_visited_fields)
  have m: "fails_before_capture (render E (tick s1) (url e)) = Some m"
    using assms(4) t by simp
  have fp: "fetch_page E host (url e) (mark_visited host e s)
      = render_fallback E host (url e) h s1"
    using assms(1,2,3) by (simp add: fetch_page_def)
  have a: "fst (fetch_page E host (url e) (mark_visited host e s)) = h"
    using render_fallback_early_failure(1) [OF m] by (simp add: fp)
  have b: "events (snd (fetch_page E host (url e) (mark_visited host e s)))
      = events s1 @ [WarnRenderFailed host m]"
    using render_fallback_early_failure(2) [OF m] by (simp add: fp)
  have c: "results (visit E cfg host e s) = results s
      \<and> toVisit (visit E cfg host e s) = toVisit s
      \<and> pagesVisited (visit E cfg host e s) = pagesVisited s + 1" if "falsy h"
  proof -
    have "h = None \<or> h = Some []" using that by (auto simp: falsy_def split: option.splits)
    then show ?thesis
      using visit_empty_content [of E host e s cfg] a by simp
  qed
  have d: "visit E cfg host e s
      = process_content E cfg host e b (snd (fetch_page E host (url e) (mark_visited host e s)))"
    if "h = Some b" "b \<noteq> []" for b
  proof -
    define s2 where "s2 = snd (fetch_page E host (url e) (mark_visited host e s))"
    have f: "fetch_page E host (url e) (mark_visited host e s) = (Some b, s2)"
      using a that(1) by (simp add: prod_eq_iff s2_def)
    show ?thesis
      unfolding s2_def [symmetric] using that(2) by (simp add: visit_def f)
  qed
  show ?thesis using a b c d by simp
qed

text \<open>
  The theorem at work: the site that does not answer. The plain fetch throws, the
  content is empty, and \<^verbatim>\<open>page.content()\<close> throws.
\<close>

theorem C8_witness:
  "fst (plain_fetch env_leak ''example.com'' ''http://example.com''
          (mark_visited ''example.com'' \<lparr>url = ''http://example.com'', depth = 0\<rparr>
             (seed_taken ''example.com''))) = None
   \<and> too_short None \<and> falsy None
   \<and> browser env_leak
   \<and> fails_before_capture (render env_leak (tick (seed_taken ''example.com''))
        ''http://example.com'') = Some ''page is navigating''
   \<and> fst (fetch_page env_leak ''example.com'' ''http://example.com''
          (mark_visited ''example.com'' \<lparr>url = ''http://example.com'', depth = 0\<rparr>
             (seed_taken ''example.com''))) = None
   \<and> last (events (snd (fetch_page env_leak ''example.com'' ''http://example.com''
          (mark_visited ''example.com'' \<lparr>url = ''http://example.com'', depth = 0\<rparr>
             (seed_taken ''example.com'')))))
       = WarnRenderFailed ''example.com'' ''page is navigating''
   \<and> results (visit env_leak cfg_default ''example.com''
        \<lparr>url = ''http://example.com'', depth = 0\<rparr> (seed_taken ''example.com'')) = []
   \<and> toVisit (visit env_leak cfg_default ''example.com''
        \<lparr>url = ''http://example.com'', depth = 0\<rparr> (seed_taken ''example.com'')) = []
   \<and> pagesVisited (visit env_leak cfg_default ''example.com''
        \<lparr>url = ''http://example.com'', depth = 0\<rparr> (seed_taken ''example.com'')) = 1"
proof -
  define e :: entry where "e = \<lparr>url = ''http://example.com'', depth = 0\<rparr>"
  define s where "s = seed_taken ''example.com''"
  define s1 where "s1 = snd (plain_fetch env_leak ''example.com'' (url e)
      (mark_visited ''example.com'' e s))"
  have u: "url e = ''http://example.com''" by (simp add: e_def)
  have h: "fst (plain_fetch env_leak ''example.com'' (url e)
      (mark_visited ''example.com'' e s)) = None"
    unfolding e_def s_def by code_simp
  then have p: "plain_fetch env_leak ''example.com'' (url e) (mark_visited ''example.com'' e s)
      = (None, s1)"
    by (simp add: s1_def prod_eq_iff)
  have ts: "too_short None" and fa: "falsy None" by (simp_all add: too_short_def falsy_def)
  have br: "browser env_leak" by code_simp
  have fb: "fails_before_capture (render env_leak (tick s) (url e)) = Some ''page is navigating''"
    unfolding e_def s_def by code_simp
  have st: "results s = [] \<and> toVisit s = [] \<and> pagesVisited s = 0"
    unfolding s_def by code_simp
  have k: "fst (fetch_page env_leak ''example.com'' (url e) (mark_visited ''example.com'' e s))
        = None
      \<and> events (snd (fetch_page env_leak ''example.com'' (url e)
            (mark_visited ''example.com'' e s)))
        = events s1 @ [WarnRenderFailed ''example.com'' ''page is navigating'']
      \<and> results (visit env_leak cfg_default ''example.com'' e s) = results s
      \<and> toVisit (visit env_leak cfg_default ''example.com'' e s) = toVisit s
      \<and> pagesVisited (visit env_leak cfg_default ''example.com'' e s) = pagesVisited s + 1"
    using C8_render_failure_keeps_plain_content [OF p ts br fb, of cfg_default] fa by blast
  show ?thesis
    using h ts fa br fb k st unfolding u by (simp add: e_def s_def)
qed

text \<open>
  The claim as it stands fails where the plain fetch gave a short document. The front
  page of the site is 27 characters of HTML with one link; the render is attempted and
  fails in \<^verbatim>\<open>newContext\<close>; the content stays the short document and its link is
  enqueued.
\<close>

theorem C8_counterexample:
  "fst (plain_fetch env_short ''example.com'' ''http://example.com''
          (mark_visited ''example.com'' \<lparr>url = ''http://example.com'', depth = 0\<rparr>
             (seed_taken ''example.com''))) = Some page_short
   \<and> too_short (Some page_short)
   \<and> browser env_short
   \<and> newContext_err (render env_short 1 ''http://example.com'') = Some ''browser has been closed''
   \<and> events (iter env_short cfg_default ''example.com'' (start_state ''example.com'' idle))
       = [Progress ''example.com'' ''http://example.com'' 0,
          WarnRenderFailed ''example.com'' ''browser has been closed'']
   \<and> fst (fetch_page env_short ''example.com'' ''http://example.com''
          (mark_visited ''example.com'' \<lparr>url = ''http://example.com'', depth = 0\<rparr>
             (seed_taken ''example.com''))) = Some page_short
   \<and> toVisit (iter env_short cfg_default ''example.com'' (start_state ''example.com'' idle))
       = [\<lparr>url = ''http://example.com/about'', depth = 1\<rparr>]"
  by code_simp

text \<open>
  C9. After any sequence of image forwards, starting from the empty set of a new job,
  the result set holds no entry twice: a forward resolves the raw reference against the
  page's URL (the raw string stands in when that fails) and adds the result to the set;
  two forwards that resolve to the same URL leave one entry, and a forward whose
  resolved URL is present leaves the set as it is. The entries of the set are the
  resolved URLs themselves. A traversal keeps the set free of repetitions.
\<close>

theorem C9_results_hold_each_url_once:
  assumes "results job = []"
  shows "distinct (results (foldl (\<lambda>s (raw, base). forward_image E base s raw) job fwds))
       \<and> set (results (foldl (\<lambda>s (raw, base). forward_image E base s raw) job fwds))
           = (\<lambda>(raw, base). normalizeUrl E raw base) ` set fwds
       \<and> (normalizeUrl E raw base \<in> set (results s)
            \<longrightarrow> results (forward_image E base s raw) = results s)
       \<and> results (forward_image E base s raw)
           = set_add (case new_URL E raw (Some base) of None \<Rightarrow> raw | Some r \<Rightarrow> href r) (results s)
       \<and> distinct (results (handleDomain E cfg domain job))"
proof -
  have d: "distinct (results t) \<Longrightarrow>
      distinct (results (foldl (\<lambda>s (raw, base). forward_image E base s raw) t fwds))" for t
    by (induction fwds arbitrary: t) (auto simp: set_add_distinct)
  have m: "set (results (foldl (\<lambda>s (raw, base). forward_image E base s raw) t fwds))
      = set (results t) \<union> (\<lambda>(raw, base). normalizeUrl E raw base) ` set fwds" for t
    by (induction fwds arbitrary: t) auto
  have u: "normalizeUrl E raw base \<in> set (results s)
      \<longrightarrow> results (forward_image E base s raw) = results s"
    by (simp add: set_add_def)
  have n: "results (forward_image E base s raw)
      = set_add (case new_URL E raw (Some base) of None \<Rightarrow> raw | Some r \<Rightarrow> href r) (results s)"
    by (simp add: normalizeUrl_def)
  have "distinct (results (start_state domain job))"
    using assms by (simp add: start_state_def)
  then have "distinct (results (crawl_loop E cfg (toLowerCase domain) (start_state domain job)))"
    using loop_states_invariant [where P = "\<lambda>t. distinct (results t)", OF _ _ crawl_loop_in_states]
      iter_results_distinct by blast
  then have h: "distinct (results (handleDomain E cfg domain job))" by simp
  show ?thesis using d [of job] m [of job] u n h assms by simp
qed

theorem C9_witness:
  "results idle = []
   \<and> distinct (results (foldl (\<lambda>s (raw, base). forward_image env_site base s raw) idle
        [(''/logo.png'', ''http://example.com''), (''/logo.png'', ''http://example.com/a''),
         (''http://[bad'', ''http://example.com'')]))
   \<and> results (foldl (\<lambda>s (raw, base). forward_image env_site base s raw) idle
        [(''/logo.png'', ''http://example.com''), (''/logo.png'', ''http://example.com/a''),
         (''http://[bad'', ''http://example.com'')])
       = [''http://example.com/logo.png'', ''http://[bad'']
   \<and> normalizeUrl env_site ''/logo.png'' ''http://example.com/a''
       \<in> set (results (forward_image env_site ''http://example.com'' idle ''/logo.png''))
   \<and> results (forward_image env_site ''http://example.com/a''
        (forward_image env_site ''http://example.com'' idle ''/logo.png'') ''/logo.png'')
       = results (forward_image env_site ''http://example.com'' idle ''/logo.png'')"
proof -
  have i: "results idle = []" by (simp add: idle_def)
  have r: "results (foldl (\<lambda>s (raw, base). forward_image env_site base s raw) idle
        [(''/logo.png'', ''http://example.com''), (''/logo.png'', ''http://example.com/a''),
         (''http://[bad'', ''http://example.com'')])
      = [''http://example.com/logo.png'', ''http://[bad'']"
    by code_simp
  have n: "normalizeUrl env_site ''/logo.png'' ''http://example.com/a''
      \<in> set (results (forward_image env_site ''http://example.com'' idle ''/logo.png''))"
    by code_simp
  show ?thesis
    using i r n
      C9_results_hold_each_url_once [OF i, where E = env_site
        and fwds = "[(''/logo.png'', ''http://example.com''),
                     (''/logo.png'', ''http://example.com/a''),
                     (''http://[bad'', ''http://example.com'')]"
        and raw = "''/logo.png''" and base = "''http://example.com/a''"
        and s = "forward_image env_site ''http://example.com'' idle ''/logo.png''"]
    by blast
qed

text \<open>
  C10. A frontier can hold several entries for one URL (enqueueing looks at \<open>seen\<close>, not
  at the queue), yet a URL is visited at most once per domain: at every loop head
  \<open>seen\<close> holds each visited URL once, the budget counter is the number of these URLs,
  the fetches announced since the domain started are exactly these URLs in order, and
  an iteration that takes an entry whose URL is in \<open>seen\<close> only drops the entry:
  nothing is fetched and the budget counter stays.
\<close>

theorem C10_duplicates_queued_but_visited_once:
  assumes "t \<in> set (loop_states E cfg (toLowerCase domain) (start_state domain s0))"
  shows "(\<exists>E' cfg' domain' t'.
            t' \<in> set (loop_states E' cfg' (toLowerCase domain') (start_state domain' idle))
            \<and> \<not> distinct (map url (toVisit t')))
       \<and> distinct (seen t)
       \<and> pagesVisited t = int (length (seen t))
       \<and> announced (events t) = announced (events s0) @ seen t
       \<and> (\<forall>e rest. toVisit t = e # rest \<and> url e \<in> set (seen t) \<longrightarrow>
             iter E cfg (toLowerCase domain) t = t\<lparr>toVisit := rest, tick := tick t + 1\<rparr>)"
proof -
  have l: "toLowerCase ''example.com'' = ''example.com''"
    by (simp add: toLowerCase_def toLowerChar_def)
  have "running cfg_default (start_state ''example.com'' idle)"
    by (simp add: running_def start_state_def idle_def cfg_default_def)
  then have "iter env_site cfg_default ''example.com'' (start_state ''example.com'' idle)
      \<in> set (loop_states env_site cfg_default (toLowerCase ''example.com'')
               (start_state ''example.com'' idle))"
    unfolding l by (rule iter_in_loop_states)
  moreover have "\<not> distinct (map url (toVisit
      (iter env_site cfg_default ''example.com'' (start_state ''example.com'' idle))))"
    by code_simp
  ultimately have ex: "\<exists>E' cfg' domain' t'.
      t' \<in> set (loop_states E' cfg' (toLowerCase domain') (start_state domain' idle))
      \<and> \<not> distinct (map url (toVisit t'))"
    by blast
  have "visits_recorded (announced (events s0)) (start_state domain s0)"
    by (simp add: visits_recorded_def start_state_def)
  then have "visits_recorded (announced (events s0)) t"
    using visits_recorded_at_loop_heads assms by blast
  then have v: "distinct (seen t)" "pagesVisited t = int (length (seen t))"
    "announced (events t) = announced (events s0) @ seen t"
    by (simp_all add: visits_recorded_def)
  have "\<forall>e rest. toVisit t = e # rest \<and> url e \<in> set (seen t) \<longrightarrow>
      iter E cfg (toLowerCase domain) t = t\<lparr>toVisit := rest, tick := tick t + 1\<rparr>"
    by (simp add: iter_seen_entry)
  then show ?thesis using ex v by blast
qed

text \<open>
  The theorem at work: the three-page site after two iterations. The queue holds \<^verbatim>\<open>/a\<close>
  once more, and \<^verbatim>\<open>/b\<close> twice; \<^verbatim>\<open>/a\<close> has been visited, and the third iteration only
  drops its entry.
\<close>

theorem C10_witness:
  "site_after_two \<in> set (loop_states env_site cfg_default (toLowerCase ''example.com'')
       (start_state ''example.com'' idle))
   \<and> toVisit site_after_two
       = \<lparr>url = ''http://example.com/a'', depth = 1\<rparr>
         # [\<lparr>url = ''http://example.com/b'', depth = 1\<rparr>,
            \<lparr>url = ''http://example.com/b'', depth = 2\<rparr>]
   \<and> seen site_after_two = [''http://example.com'', ''http://example.com/a'']
   \<and> distinct (seen site_after_two)
   \<and> pagesVisited site_after_two = 2
   \<and> announced (events site_after_two) = [''http://example.com'', ''http://example.com/a'']
   \<and> iter env_site cfg_default (toLowerCase ''example.com'') site_after_two
       = site_after_two
           \<lparr>toVisit := [\<lparr>url = ''http://example.com/b'', depth = 1\<rparr>,
                        \<lparr>url = ''http://example.com/b'', depth = 2\<rparr>],
            tick := tick site_after_two + 1\<rparr>"
proof -
  define e :: entry where "e = \<lparr>url = ''http://example.com/a'', depth = 1\<rparr>"
  define rest :: "entry list" where
    "rest = [\<lparr>url = ''http://example.com/b'', depth = 1\<rparr>,
             \<lparr>url = ''http://example.com/b'', depth = 2\<rparr>]"
  have m: "site_after_two \<in> set (loop_states env_site cfg_default (toLowerCase ''example.com'')
      (start_state ''example.com'' idle))"
    by code_simp
  have q: "toVisit site_after_two = e # rest" unfolding e_def rest_def by code_simp
  have sn: "seen site_after_two = [''http://example.com'', ''http://example.com/a'']"
    by code_simp
  have i: "url e \<in> set (seen site_after_two)" by (simp add: sn e_def)
  have a0: "announced (events idle) = []" by (simp add: idle_def)
  have k: "distinct (seen site_after_two)
      \<and> pagesVisited site_after_two = int (length (seen site_after_two))
      \<and> announced (events site_after_two) = announced (events idle) @ seen site_after_two
      \<and> iter env_site cfg_default (toLowerCase ''example.com'') site_after_two
          = site_after_two\<lparr>toVisit := rest, tick := tick site_after_two + 1\<rparr>"
    using C10_duplicates_queued_but_visited_once [OF m] q i by blast
  show ?thesis
    using m q sn k a0 by (simp add: e_def rest_def)
qed

end
